theory Spec2Isabelle
  imports Main "HOL-Library.Sublist"
begin

section \<open>Constants of the configuration module\<close>

definition TABLE_NAME :: string where
  "TABLE_NAME = ''{http://www.w3.org/1999/xhtml}table''"

definition STRUCTURE_KEY :: string where
  "STRUCTURE_KEY = ''structure''"

section \<open>Data model\<close>

text \<open>
  An element of the parsed document: its tag, its attribute dictionary (association list,
  looked up with \<open>map_of\<close>) and its children in document order. The ancestor chain that
  lxml reaches through \<open>iterancestors\<close> is passed along explicitly, nearest ancestor first.
\<close>

datatype node = Node (tag: string) (attrib: "(string \<times> string) list") (children: "node list")

text \<open>
  The \<open>Chunk\<close> objects built by \<open>_build_chunks\<close>: the keyword arguments of the constructor
  and the \<open>parent\<close> attribute that \<open>_traverse\<close> assigns. A character of the text stands for
  one code point of the Python string, so \<open>length\<close> is Python's \<open>len\<close>.
\<close>

datatype chunk = Chunk (chunk_tag: string) (chunk_text: string) (chunk_xml: string) (chunk_structure: string)
  (chunk_xpath: string) (chunk_parent: "chunk option")

text \<open>The keyword arguments of \<open>get_chunks\<close>; Python's integers are unbounded.\<close>

record config =
  min_text_length :: int
  max_text_length :: int
  whitespace_normalize_text :: bool
  sub_chunk_tables :: bool
  xml_mode :: bool
  parent_hierarchy_levels :: int

text \<open>
  The collaborators imported from \<open>dgml_utils.conversions\<close>, \<open>dgml_utils.locators\<close> and
  lxml: the three renderers, the tag cleaner, the serialiser and the locator. They are
  parameters of the model; the locator sees the node together with its ancestor chain.
\<close>

record env =
  simplified_xml :: "node \<Rightarrow> bool \<Rightarrow> string"
  xhtml_table_to_text :: "node \<Rightarrow> bool \<Rightarrow> string"
  text_node_to_text :: "node \<Rightarrow> bool \<Rightarrow> string"
  clean_tag :: "node \<Rightarrow> string"
  tostring :: "node \<Rightarrow> string"
  xpath :: "node list \<Rightarrow> node \<Rightarrow> string"

datatype error = ValueError | IndexError

type_synonym state = "chunk option \<times> chunk list"

section \<open>Marker predicates\<close>

text \<open>\<open>is_descendant_of_structural\<close>: the loop over \<open>node.iterancestors()\<close>.\<close>

fun is_descendant_of_structural :: "node list \<Rightarrow> bool" where
  "is_descendant_of_structural [] = False"
| "is_descendant_of_structural (ancestor # rest) =
     (if map_of (attrib ancestor) STRUCTURE_KEY \<noteq> None then True
      else is_descendant_of_structural rest)"

definition is_structural :: "node \<Rightarrow> bool" where
  "is_structural node = (map_of (attrib node) STRUCTURE_KEY \<noteq> None)"

text \<open>
  \<open>node.findall(".//*[@structure]")\<close>: the proper descendants, at any depth, that carry
  the attribute, in document order.
\<close>

fun findall_structure :: "node \<Rightarrow> node list" where
  "findall_structure (Node t a cs) =
     concat (map (\<lambda>c. (if map_of (attrib c) STRUCTURE_KEY \<noteq> None then [c] else [])
                        @ findall_structure c) cs)"

definition has_structural_children :: "node \<Rightarrow> bool" where
  "has_structural_children node = (length (findall_structure node) > 0)"

definition is_force_prepend_chunk :: "node \<Rightarrow> bool" where
  "is_force_prepend_chunk node = (map_of (attrib node) STRUCTURE_KEY \<in> set [Some ''lim''])"

section \<open>Splitting a rendered text\<close>

text \<open>\<open>range(i, n, step)\<close> for a positive step; the list is empty for a negative one.\<close>

function py_range :: "int \<Rightarrow> int \<Rightarrow> int \<Rightarrow> int list" where
  "py_range i n step = (if 0 < step \<and> i < n then i # py_range (i + step) n step else [])"
  by pat_completeness auto
termination
  by (relation "measure (\<lambda>(i, n, step). nat (n - i))") auto

text \<open>The slice \<open>s[i : j]\<close> for \<open>0 \<le> i\<close>, the only case the comprehension produces.\<close>

definition py_slice :: "string \<Rightarrow> int \<Rightarrow> int \<Rightarrow> string" where
  "py_slice s i j = take (nat (j - i)) (drop (nat i) s)"

text \<open>
  The comprehension \<open>[node_text[i : i + max_text_length] for i in range(0, len(node_text),
  max_text_length)]\<close>; \<open>range\<close> raises \<open>ValueError\<close> on a step of zero.
\<close>

definition node_text_splits :: "string \<Rightarrow> int \<Rightarrow> error + string list" where
  "node_text_splits node_text m =
     (if m = 0 then Inl ValueError
      else Inr (map (\<lambda>i. py_slice node_text i (i + m)) (py_range 0 (int (length node_text)) m)))"

section \<open>The chunk builder\<close>

text \<open>The rendering chosen by the \<open>if\<close>/\<open>elif\<close>/\<open>else\<close> at the head of \<open>_build_chunks\<close>.\<close>

definition node_text_of :: "env \<Rightarrow> config \<Rightarrow> node \<Rightarrow> string" where
  "node_text_of E cfg node =
     (if xml_mode cfg then simplified_xml E node (whitespace_normalize_text cfg)
      else if tag node = TABLE_NAME then xhtml_table_to_text E node (whitespace_normalize_text cfg)
      else text_node_to_text E node (whitespace_normalize_text cfg))"

text \<open>\<open>node.attrib.get(STRUCTURE_KEY) or ""\<close>.\<close>

definition structure_of :: "node \<Rightarrow> string" where
  "structure_of node = (case map_of (attrib node) STRUCTURE_KEY of None \<Rightarrow> [] | Some v \<Rightarrow> v)"

definition build_chunks :: "env \<Rightarrow> config \<Rightarrow> node list \<Rightarrow> node \<Rightarrow> error + chunk list" where
  "build_chunks E cfg ancs node =
     (case node_text_splits (node_text_of E cfg node) (max_text_length cfg) of
        Inl e \<Rightarrow> Inl e
      | Inr splits \<Rightarrow>
          Inr (map (\<lambda>t. Chunk (clean_tag E node) t (tostring E node) (structure_of node)
                              (xpath E ancs node) None) splits))"

section \<open>Collaborators modelled from the specification\<close>

text \<open>
  Modelled from the spec: \<open>Chunk.__add__\<close> of \<open>dgml_utils.models\<close>, which is not among the
  sources. The pending chunk's text is put before the current chunk's text; the current
  chunk keeps everything else.
\<close>

definition chunk_add :: "chunk \<Rightarrow> chunk \<Rightarrow> chunk" where
  "chunk_add pending cur =
     Chunk (chunk_tag cur) (chunk_text pending @ chunk_text cur) (chunk_xml cur) (chunk_structure cur)
       (chunk_xpath cur) (chunk_parent cur)"

text \<open>
  Modelled from the spec: \<open>xml_nth_ancestor\<close> of \<open>dgml_utils.conversions\<close>, which is not
  among the sources. It climbs \<open>n\<close> levels and stops at the root of a shallower tree; the
  result comes with its own ancestor chain.
\<close>

fun xml_nth_ancestor :: "node list \<Rightarrow> node \<Rightarrow> nat \<Rightarrow> node list \<times> node" where
  "xml_nth_ancestor ancs node 0 = (ancs, node)"
| "xml_nth_ancestor [] node (Suc n) = ([], node)"
| "xml_nth_ancestor (p # ancs) node (Suc n) = xml_nth_ancestor ancs p n"

section \<open>The traversal\<close>

text \<open>
  The context chunk of a leaf: \<open>None\<close> unless \<open>xml_mode and parent_hierarchy_levels > 0\<close>,
  else element \<open>[0]\<close> of the chunks built from the ancestor, an \<open>IndexError\<close> when there is
  none.
\<close>

definition ancestor_chunk_of :: "env \<Rightarrow> config \<Rightarrow> node list \<Rightarrow> node \<Rightarrow> error + chunk option" where
  "ancestor_chunk_of E cfg ancs node =
     (if xml_mode cfg \<and> parent_hierarchy_levels cfg > 0 then
        (case xml_nth_ancestor ancs node (nat (parent_hierarchy_levels cfg)) of
           (a_ancs, ancestor_node) \<Rightarrow>
             (case build_chunks E cfg a_ancs ancestor_node of
                Inl e \<Rightarrow> Inl e
              | Inr [] \<Rightarrow> Inl IndexError
              | Inr (c # _) \<Rightarrow> Inr (Some c)))
      else Inr None)"

text \<open>
  One pass of the body of \<open>for chunk in sub_chunks\<close>, on the pair of
  \<open>prepended_small_chunk\<close> and \<open>final_chunks\<close>.
\<close>

definition loop_body :: "config \<Rightarrow> node \<Rightarrow> chunk list \<Rightarrow> chunk option \<Rightarrow> state \<Rightarrow> chunk \<Rightarrow> state" where
  "loop_body cfg node sub_chunks ancestor_chunk st chunk0 =
     (case st of (prepended_small_chunk, final_chunks) \<Rightarrow>
        let chunk1 = Chunk (chunk_tag chunk0) (chunk_text chunk0) (chunk_xml chunk0) (chunk_structure chunk0)
                       (chunk_xpath chunk0) ancestor_chunk;
            (chunk2, prepended2) =
              (case prepended_small_chunk of
                 Some p \<Rightarrow> if sub_chunks \<noteq> [] then (chunk_add p chunk1, None)
                           else (chunk1, Some p)
               | None \<Rightarrow> (chunk1, None))
        in if int (length (chunk_text chunk2)) < min_text_length cfg \<or> is_force_prepend_chunk node
           then (Some chunk2, final_chunks)
           else (prepended2, final_chunks @ [chunk2]))"

text \<open>The leaf branch of \<open>_traverse\<close>: build, resolve the context chunk, run the loop.\<close>

definition emit_leaf :: "env \<Rightarrow> config \<Rightarrow> node list \<Rightarrow> node \<Rightarrow> state \<Rightarrow> error + state" where
  "emit_leaf E cfg ancs node st =
     (case build_chunks E cfg ancs node of
        Inl e \<Rightarrow> Inl e
      | Inr sub_chunks \<Rightarrow>
          (case ancestor_chunk_of E cfg ancs node of
             Inl e \<Rightarrow> Inl e
           | Inr ancestor_chunk \<Rightarrow>
               Inr (foldl (loop_body cfg node sub_chunks ancestor_chunk) st sub_chunks)))"

text \<open>The three flags of \<open>_traverse\<close> and their disjunction.\<close>

definition leaf_node :: "config \<Rightarrow> node list \<Rightarrow> node \<Rightarrow> bool" where
  "leaf_node cfg ancs node =
     (let is_table_leaf_node = (tag node = TABLE_NAME \<and> \<not> sub_chunk_tables cfg);
          is_text_leaf_node = (is_structural node \<and> \<not> has_structural_children node);
          is_structure_orphaned_node =
            (is_descendant_of_structural ancs \<and> \<not> has_structural_children node)
      in is_table_leaf_node \<or> is_text_leaf_node \<or> is_structure_orphaned_node)"

fun traverse :: "env \<Rightarrow> config \<Rightarrow> node list \<Rightarrow> node \<Rightarrow> state \<Rightarrow> error + state"
  and traverse_children :: "env \<Rightarrow> config \<Rightarrow> node list \<Rightarrow> node list \<Rightarrow> state \<Rightarrow> error + state"
where
  "traverse E cfg ancs (Node t a cs) st =
     (if leaf_node cfg ancs (Node t a cs) then emit_leaf E cfg ancs (Node t a cs) st
      else traverse_children E cfg (Node t a cs # ancs) cs st)"
| "traverse_children E cfg ancs [] st = Inr st"
| "traverse_children E cfg ancs (child # rest) st =
     (case traverse E cfg ancs child st of
        Inl e \<Rightarrow> Inl e
      | Inr st' \<Rightarrow> traverse_children E cfg ancs rest st')"

text \<open>
  \<open>get_chunks\<close>, called on a node whose ancestor chain is \<open>ancs\<close> (empty for the root that
  \<open>get_chunks_str\<close> passes). The branch for text mode with a positive
  \<open>parent_hierarchy_levels\<close> is the no-op \<open>...\<close>.
\<close>

definition get_chunks :: "env \<Rightarrow> config \<Rightarrow> node list \<Rightarrow> node \<Rightarrow> error + chunk list" where
  "get_chunks E cfg ancs node =
     (case traverse E cfg ancs node (None, []) of
        Inl e \<Rightarrow> Inl e
      | Inr (prepended_small_chunk, final_chunks) \<Rightarrow>
          (case prepended_small_chunk of
             Some p \<Rightarrow> Inr (final_chunks @ [p])
           | None \<Rightarrow> Inr final_chunks))"

section \<open>The traversal as one pass of the merger\<close>

text \<open>
  The assignment \<open>chunk.parent = ancestor_chunk\<close> at the head of the loop body.
\<close>

definition set_parent :: "chunk option \<Rightarrow> chunk \<Rightarrow> chunk" where
  "set_parent anc c = Chunk (chunk_tag c) (chunk_text c) (chunk_xml c) (chunk_structure c)
     (chunk_xpath c) anc"

text \<open>
  The rest of the loop body, on a provisional chunk that already has its parent and on
  the flag \<open>is_force_prepend_chunk(node)\<close> of the leaf it was cut from.
\<close>

definition merge_one :: "config \<Rightarrow> state \<Rightarrow> bool \<times> chunk \<Rightarrow> state" where
  "merge_one cfg st fc =
     (case st of (pre, fin) \<Rightarrow>
        let c = (case pre of Some p \<Rightarrow> chunk_add p (snd fc) | None \<Rightarrow> snd fc)
        in if int (length (chunk_text c)) < min_text_length cfg \<or> fst fc
           then (Some c, fin) else (None, fin @ [c]))"

text \<open>
  The provisional chunks of one leaf, each with the leaf's force-merge flag, and those of
  a whole tree in traversal order. \<open>traverse_items\<close> below shows that the traversal is
  \<open>merge_one\<close> folded over this list.
\<close>

definition leaf_items :: "env \<Rightarrow> config \<Rightarrow> node list \<Rightarrow> node \<Rightarrow> error + (bool \<times> chunk) list" where
  "leaf_items E cfg ancs node =
     (case build_chunks E cfg ancs node of
        Inl e \<Rightarrow> Inl e
      | Inr sub_chunks \<Rightarrow>
          (case ancestor_chunk_of E cfg ancs node of
             Inl e \<Rightarrow> Inl e
           | Inr anc \<Rightarrow>
               Inr (map (\<lambda>c. (is_force_prepend_chunk node, set_parent anc c)) sub_chunks)))"

fun items :: "env \<Rightarrow> config \<Rightarrow> node list \<Rightarrow> node \<Rightarrow> error + (bool \<times> chunk) list"
  and items_children :: "env \<Rightarrow> config \<Rightarrow> node list \<Rightarrow> node list \<Rightarrow> error + (bool \<times> chunk) list"
where
  "items E cfg ancs (Node t a cs) =
     (if leaf_node cfg ancs (Node t a cs) then leaf_items E cfg ancs (Node t a cs)
      else items_children E cfg (Node t a cs # ancs) cs)"
| "items_children E cfg ancs [] = Inr []"
| "items_children E cfg ancs (child # rest) =
     (case items E cfg ancs child of
        Inl e \<Rightarrow> Inl e
      | Inr xs \<Rightarrow>
          (case items_children E cfg ancs rest of
             Inl e \<Rightarrow> Inl e
           | Inr ys \<Rightarrow> Inr (xs @ ys)))"

text \<open>The end of \<open>get_chunks\<close>: a pending chunk is appended to the output.\<close>

definition flush :: "state \<Rightarrow> chunk list" where
  "flush st = (case st of (Some p, fin) \<Rightarrow> fin @ [p] | (None, fin) \<Rightarrow> fin)"

definition pending_text :: "chunk option \<Rightarrow> string" where
  "pending_text pre = (case pre of None \<Rightarrow> [] | Some p \<Rightarrow> chunk_text p)"

text \<open>The texts of a run of consecutive provisional chunks, joined.\<close>

definition run_text :: "(bool \<times> chunk) list \<Rightarrow> string" where
  "run_text g = concat (map (chunk_text \<circ> snd) g)"

section \<open>Notions of the specification\<close>

text \<open>The nodes at which the traversal stops, in document order.\<close>

fun leaves :: "config \<Rightarrow> node list \<Rightarrow> node \<Rightarrow> node list"
  and leaves_children :: "config \<Rightarrow> node list \<Rightarrow> node list \<Rightarrow> node list"
where
  "leaves cfg ancs (Node t a cs) =
     (if leaf_node cfg ancs (Node t a cs) then [Node t a cs]
      else leaves_children cfg (Node t a cs # ancs) cs)"
| "leaves_children cfg ancs [] = []"
| "leaves_children cfg ancs (child # rest) = leaves cfg ancs child @ leaves_children cfg ancs rest"

text \<open>
  The leaf classifier in the words of the specification: \<open>descendants\<close> lists the nodes
  below a node at any depth, \<open>carries_marker\<close> says that the structure attribute is
  present, and \<open>spec_leaf\<close> is the disjunction of the three conditions.
\<close>

fun descendants :: "node \<Rightarrow> node list" where
  "descendants (Node t a cs) = concat (map (\<lambda>c. c # descendants c) cs)"

definition carries_marker :: "node \<Rightarrow> bool" where
  "carries_marker n = (STRUCTURE_KEY \<in> fst ` set (attrib n))"

definition spec_leaf :: "config \<Rightarrow> node list \<Rightarrow> node \<Rightarrow> bool" where
  "spec_leaf cfg ancs n =
     ((tag n = TABLE_NAME \<and> \<not> sub_chunk_tables cfg) \<or>
      (carries_marker n \<and> (\<forall>d\<in>set (descendants n). \<not> carries_marker d)) \<or>
      ((\<exists>a\<in>set ancs. carries_marker a) \<and> (\<forall>d\<in>set (descendants n). \<not> carries_marker d)))"

text \<open>Trees without any structure marker, and trees that contain a table-typed node.\<close>

fun unmarked :: "node \<Rightarrow> bool" where
  "unmarked (Node t a cs) = (\<not> is_structural (Node t a cs) \<and> list_all unmarked cs)"

fun has_table :: "node \<Rightarrow> bool" where
  "has_table (Node t a cs) = (t = TABLE_NAME \<or> list_ex has_table cs)"

text \<open>All nodes of a tree, each with its ancestor chain.\<close>

fun positions :: "node list \<Rightarrow> node \<Rightarrow> (node list \<times> node) list" where
  "positions ancs (Node t a cs) =
     (ancs, Node t a cs) # concat (map (positions (Node t a cs # ancs)) cs)"

text \<open>
  The context chunk in the words of the specification: the first slice of at most
  \<open>max_text_length\<close> characters of the full-structure rendering of the ancestor
  \<open>parent_hierarchy_levels\<close> levels above the node, or of the topmost node of a shallower
  chain.
\<close>

definition context_chunk :: "env \<Rightarrow> config \<Rightarrow> node list \<Rightarrow> node \<Rightarrow> chunk" where
  "context_chunk E cfg ancs n =
     (let k = min (nat (parent_hierarchy_levels cfg)) (length ancs);
          a = (n # ancs) ! k
      in Chunk (clean_tag E a)
           (take (nat (max_text_length cfg)) (simplified_xml E a (whitespace_normalize_text cfg)))
           (tostring E a) (structure_of a) (xpath E (drop (Suc k) (n # ancs)) a) None)"

section \<open>Sample inputs\<close>

text \<open>
  Stand-ins for the collaborators: every renderer returns \<open>r node\<close>, and the tag cleaner,
  the serialiser and the locator return the tag. With \<open>r = tag\<close> a node's tag is its text.
  \<open>demo_cfg\<close> is text mode with the two length bounds given, tables kept whole and no
  context; \<open>para\<close> and \<open>list_marker\<close> are childless nodes marked \<open>p\<close> and \<open>lim\<close>.
\<close>

definition demo_env :: "(node \<Rightarrow> string) \<Rightarrow> env" where
  "demo_env r = \<lparr>simplified_xml = (\<lambda>n _. r n), xhtml_table_to_text = (\<lambda>n _. r n),
     text_node_to_text = (\<lambda>n _. r n), clean_tag = tag, tostring = tag,
     xpath = (\<lambda>ancs n. tag n)\<rparr>"

definition demo_cfg :: "int \<Rightarrow> int \<Rightarrow> config" where
  "demo_cfg lo hi = \<lparr>min_text_length = lo, max_text_length = hi, whitespace_normalize_text = True,
     sub_chunk_tables = False, xml_mode = False, parent_hierarchy_levels = 0\<rparr>"

definition para :: "string \<Rightarrow> node" where
  "para t = Node t [(''structure'', ''p'')] []"

definition list_marker :: "string \<Rightarrow> node" where
  "list_marker t = Node t [(''structure'', ''lim'')] []"

definition doc2 :: node where
  "doc2 = Node ''doc'' [] [para ''Hello'', para ''0123456789'']"

definition doc3 :: node where
  "doc3 = Node ''doc'' [] [para ''ab'', list_marker ''1.'', para ''0123456789'']"

text \<open>
  Hierarchy mode with one level of context; a table without markers, and a marked section
  that holds a marked paragraph followed by that table.
\<close>

definition hier_cfg :: config where
  "hier_cfg = (demo_cfg 8 10)\<lparr>xml_mode := True, parent_hierarchy_levels := 1\<rparr>"

definition sample_table :: node where
  "sample_table = Node TABLE_NAME [] [Node ''tr'' [] [Node ''td'' [] []]]"

definition sample_section :: node where
  "sample_section = Node ''sec'' [(''structure'', ''div'')] [para ''Paragraph'', sample_table]"

text \<open>
  A document whose first leaf is a list-item marker of ten characters, followed by two
  paragraphs of ten characters.
\<close>

definition doc_lim :: node where
  "doc_lim = Node ''doc'' [] [list_marker ''0123456789'', para ''abcdefghij'', para ''ABCDEFGHIJ'']"

text \<open>A document that ends with a list-item marker.\<close>

definition doc_lim_last :: node where
  "doc_lim_last = Node ''doc'' [] [para ''abcdefghij'', list_marker ''0123456789'']"

text \<open>
  A table whose cells are marked paragraphs, and a renderer set whose table flattening
  differs from its full-structure rendering.
\<close>

definition marked_table :: node where
  "marked_table = Node TABLE_NAME [] [Node ''tr'' [] [para ''0123456789'', para ''abcdefghij'']]"

definition flat_env :: env where
  "flat_env = (demo_env tag)\<lparr>xhtml_table_to_text := (\<lambda>n _. ''flattened cells'')\<rparr>"

section \<open>Lemmas\<close>

declare py_range.simps [simp del]

lemma loop_body_merge_one:
  "subs \<noteq> [] \<Longrightarrow>
   loop_body cfg node subs anc st c = merge_one cfg st (is_force_prepend_chunk node, set_parent anc c)"
  by (cases st) (auto simp: loop_body_def merge_one_def set_parent_def Let_def split: option.splits)

lemma foldl_loop_body:
  "subs \<noteq> [] \<Longrightarrow>
   foldl (loop_body cfg node subs anc) st xs =
   foldl (merge_one cfg) st (map (\<lambda>c. (is_force_prepend_chunk node, set_parent anc c)) xs)"
  by (induction xs arbitrary: st) (simp_all add: loop_body_merge_one)

lemma emit_leaf_items:
  "emit_leaf E cfg ancs node st =
   (case leaf_items E cfg ancs node of Inl e \<Rightarrow> Inl e | Inr ps \<Rightarrow> Inr (foldl (merge_one cfg) st ps))"
proof (cases "build_chunks E cfg ancs node")
  case (Inl e)
  then show ?thesis by (simp add: emit_leaf_def leaf_items_def)
next
  case (Inr subs)
  show ?thesis
  proof (cases "subs = []")
    case True
    with Inr show ?thesis by (simp add: emit_leaf_def leaf_items_def split: sum.splits)
  next
    case False
    with Inr show ?thesis
      by (simp add: emit_leaf_def leaf_items_def foldl_loop_body split: sum.splits)
  qed
qed

lemma traverse_items:
  "traverse E cfg ancs n st =
     (case items E cfg ancs n of Inl e \<Rightarrow> Inl e | Inr ps \<Rightarrow> Inr (foldl (merge_one cfg) st ps))"
  "traverse_children E cfg ancs ns st =
     (case items_children E cfg ancs ns of Inl e \<Rightarrow> Inl e
      | Inr ps \<Rightarrow> Inr (foldl (merge_one cfg) st ps))"
proof (induction E cfg ancs n st and E cfg ancs ns st rule: traverse_traverse_children.induct)
  case (1 E cfg ancs t a cs st)
  then show ?case by (simp add: emit_leaf_items)
next
  case (2 E cfg ancs st)
  then show ?case by simp
next
  case (3 E cfg ancs child rest st)
  then show ?case by (simp split: sum.splits)
qed

lemma get_chunks_items:
  "get_chunks E cfg ancs n =
     (case items E cfg ancs n of Inl e \<Rightarrow> Inl e
      | Inr ps \<Rightarrow> Inr (flush (foldl (merge_one cfg) (None, []) ps)))"
  by (simp add: get_chunks_def traverse_items flush_def split: sum.splits prod.splits option.splits)

lemma py_range_concat:
  "0 < m \<Longrightarrow> 0 \<le> i \<Longrightarrow> n = int (length s) \<Longrightarrow>
   concat (map (\<lambda>i. py_slice s i (i + m)) (py_range i n m)) = drop (nat i) s"
proof (induction i n m rule: py_range.induct)
  case (1 i n step)
  show ?case
  proof (cases "i < n")
    case True
    have d: "drop (nat (i + step)) s = drop (nat step) (drop (nat i) s)"
      using 1(2,3) by (simp add: nat_add_distrib add.commute)
    have ih: "concat (map (\<lambda>i. py_slice s i (i + step)) (py_range (i + step) n step))
        = drop (nat (i + step)) s" using True 1 by simp
    have e: "py_range i n step = i # py_range (i + step) n step"
      using True 1(2) by (subst py_range.simps) simp
    have "concat (map (\<lambda>i. py_slice s i (i + step)) (py_range i n step)) =
        py_slice s i (i + step) @ drop (nat (i + step)) s"
      by (simp only: e list.map concat.simps ih)
    also have "\<dots> = take (nat step) (drop (nat i) s) @ drop (nat step) (drop (nat i) s)"
      by (simp only: d) (simp add: py_slice_def)
    also have "\<dots> = drop (nat i) s"
      by (rule append_take_drop_id)
    finally show ?thesis .
  next
    case False
    with 1(3,4) show ?thesis
      by (subst py_range.simps) simp
  qed
qed

lemma py_range_bounds:
  "j \<in> set (py_range i n m) \<Longrightarrow> i \<le> j \<and> j < n \<and> 0 < m"
proof (induction i n m rule: py_range.induct)
  case (1 i n step)
  from 1(2) have a: "0 < step \<and> i < n"
    by (subst (asm) py_range.simps) (auto split: if_splits)
  with 1(2) have "j = i \<or> j \<in> set (py_range (i + step) n step)"
    by (subst (asm) py_range.simps) auto
  with a 1(1) show ?case by auto
qed

lemma py_range_butlast:
  "j \<in> set (butlast (py_range i n m)) \<Longrightarrow> j + m < n"
proof (induction i n m rule: py_range.induct)
  case (1 i n step)
  from 1(2) have a: "0 < step \<and> i < n"
    by (subst (asm) py_range.simps) (auto split: if_splits)
  then have e: "py_range i n step = i # py_range (i + step) n step"
    by (subst py_range.simps) simp
  show ?case
  proof (cases "py_range (i + step) n step = []")
    case True
    with 1(2) e show ?thesis by simp
  next
    case False
    then obtain k where "k \<in> set (py_range (i + step) n step)"
      by (cases "py_range (i + step) n step") auto
    then have "i + step < n" using py_range_bounds by fastforce
    moreover from False e 1(2) have "j = i \<or> j \<in> set (butlast (py_range (i + step) n step))"
      by simp
    ultimately show ?thesis using a 1(1) by auto
  qed
qed

lemma splits_concat:
  "0 < m \<Longrightarrow> node_text_splits s m = Inr ws \<Longrightarrow> concat ws = s"
  using py_range_concat [of m 0 "int (length s)" s]
  by (auto simp: node_text_splits_def)

lemma splits_length:
  assumes "node_text_splits s m = Inr ws" "w \<in> set ws"
  shows "0 < length w \<and> int (length w) \<le> m"
proof -
  from assms obtain j where j: "j \<in> set (py_range 0 (int (length s)) m)"
    and w: "w = py_slice s j (j + m)"
    by (auto simp: node_text_splits_def split: if_splits)
  from py_range_bounds [OF j] show ?thesis
    unfolding w py_slice_def by auto
qed

lemma splits_butlast:
  assumes "node_text_splits s m = Inr ws" "w \<in> set (butlast ws)"
  shows "int (length w) = m"
proof -
  from assms obtain j where j: "j \<in> set (butlast (py_range 0 (int (length s)) m))"
    and w: "w = py_slice s j (j + m)"
    by (auto simp: node_text_splits_def map_butlast [symmetric] split: if_splits)
  from in_set_butlastD [OF j] have "0 \<le> j \<and> 0 < m" using py_range_bounds by blast
  with py_range_butlast [OF j] show ?thesis
    unfolding w py_slice_def by auto
qed

lemma splits_250:
  assumes "length s = 250"
  shows "map length (projr (node_text_splits s 100)) = [100, 100, 50]"
        "node_text_splits s 100 \<noteq> Inl e"
  using assms by (simp_all add: node_text_splits_def py_range.simps py_slice_def)

lemma chunk_add_text [simp]: "chunk_text (chunk_add p c) = chunk_text p @ chunk_text c"
  by (simp add: chunk_add_def)

lemma chunk_add_parent [simp]: "chunk_parent (chunk_add p c) = chunk_parent c"
  by (simp add: chunk_add_def)

lemma set_parent_sel [simp]:
  "chunk_text (set_parent a c) = chunk_text c" "chunk_parent (set_parent a c) = a"
  by (simp_all add: set_parent_def)

lemma merge_one_text:
  "merge_one cfg (pre, fin) fc = (pre', fin') \<Longrightarrow>
   concat (map chunk_text fin') @ pending_text pre' =
   concat (map chunk_text fin) @ pending_text pre @ chunk_text (snd fc)"
  by (auto simp: merge_one_def pending_text_def Let_def split: option.splits if_splits)

lemma foldl_merge_text:
  "foldl (merge_one cfg) (pre, fin) ps = (pre', fin') \<Longrightarrow>
   concat (map chunk_text fin') @ pending_text pre' =
   concat (map chunk_text fin) @ pending_text pre @ concat (map (chunk_text \<circ> snd) ps)"
proof (induction ps arbitrary: pre fin)
  case Nil
  then show ?case by simp
next
  case (Cons fc ps)
  obtain p1 f1 where m: "merge_one cfg (pre, fin) fc = (p1, f1)" by (cases "merge_one cfg (pre, fin) fc")
  with Cons.prems have "foldl (merge_one cfg) (p1, f1) ps = (pre', fin')" by simp
  from Cons.IH [OF this] merge_one_text [OF m] show ?case by simp
qed

lemma flush_text:
  "concat (map chunk_text (flush (pre, fin))) = concat (map chunk_text fin) @ pending_text pre"
  by (simp add: flush_def pending_text_def split: option.splits)

lemma foldl_merge_min:
  "foldl (merge_one cfg) (pre, fin) ps = (pre', fin') \<Longrightarrow>
   \<forall>c\<in>set fin. min_text_length cfg \<le> int (length (chunk_text c)) \<Longrightarrow>
   \<forall>c\<in>set fin'. min_text_length cfg \<le> int (length (chunk_text c))"
proof (induction ps arbitrary: pre fin)
  case Nil
  then show ?case by simp
next
  case (Cons fc ps)
  obtain p1 f1 where m: "merge_one cfg (pre, fin) fc = (p1, f1)" by (cases "merge_one cfg (pre, fin) fc")
  with Cons.prems(1) have f: "foldl (merge_one cfg) (p1, f1) ps = (pre', fin')" by simp
  from m Cons.prems(2) have "\<forall>c\<in>set f1. min_text_length cfg \<le> int (length (chunk_text c))"
    by (auto simp: merge_one_def Let_def split: option.splits if_splits)
  from Cons.IH [OF f this] show ?case .
qed

lemma foldl_merge_parent:
  "foldl (merge_one cfg) (pre, fin) ps = (pre', fin') \<Longrightarrow>
   \<forall>fc\<in>set ps. chunk_parent (snd fc) = a \<Longrightarrow>
   \<exists>new. fin' = fin @ new \<and> (\<forall>c\<in>set new. chunk_parent c = a) \<and>
     (if ps = [] then pre' = pre else (\<forall>p. pre' = Some p \<longrightarrow> chunk_parent p = a))"
proof (induction ps arbitrary: pre fin)
  case Nil
  then show ?case by simp
next
  case (Cons fc ps)
  obtain p1 f1 where m: "merge_one cfg (pre, fin) fc = (p1, f1)" by (cases "merge_one cfg (pre, fin) fc")
  with Cons.prems(1) have f: "foldl (merge_one cfg) (p1, f1) ps = (pre', fin')" by simp
  from Cons.prems(2) have fc: "chunk_parent (snd fc) = a" by simp
  from m fc have s: "\<exists>new. f1 = fin @ new \<and> (\<forall>c\<in>set new. chunk_parent c = a)"
    "\<forall>p. p1 = Some p \<longrightarrow> chunk_parent p = a"
    by (auto simp: merge_one_def Let_def split: option.splits if_splits)
  from Cons.prems(2) have "\<forall>fc\<in>set ps. chunk_parent (snd fc) = a" by simp
  from Cons.IH [OF f this] obtain new where
    n: "fin' = f1 @ new" "\<forall>c\<in>set new. chunk_parent c = a"
       "if ps = [] then pre' = p1 else (\<forall>p. pre' = Some p \<longrightarrow> chunk_parent p = a)" by blast
  from s(1) obtain new1 where n1: "f1 = fin @ new1" "\<forall>c\<in>set new1. chunk_parent c = a" by blast
  have "fin' = fin @ (new1 @ new)" using n(1) n1(1) by simp
  moreover have "\<forall>c\<in>set (new1 @ new). chunk_parent c = a" using n(2) n1(2) by auto
  moreover have "\<forall>p. pre' = Some p \<longrightarrow> chunk_parent p = a"
    using n(3) s(2) by (auto split: if_splits)
  ultimately show ?case by (intro exI [of _ "new1 @ new"]) simp
qed

lemma run_text_Cons [simp]: "run_text (fc # g) = chunk_text (snd fc) @ run_text g"
  by (simp add: run_text_def)

lemma run_text_Nil [simp]: "run_text [] = []"
  by (simp add: run_text_def)

lemma run_text_append [simp]: "run_text (xs @ ys) = run_text xs @ run_text ys"
  by (simp add: run_text_def)

lemma foldl_merge_runs:
  "\<exists>gs g pre fin. foldl (merge_one cfg) (None, []) ps = (pre, fin) \<and>
     concat gs @ g = ps \<and> [] \<notin> set gs \<and>
     map chunk_text fin = map run_text gs \<and>
     (pre = None \<longleftrightarrow> g = []) \<and> pending_text pre = run_text g \<and>
     (\<forall>x\<in>set gs. \<not> fst (last x))"
proof (induction ps rule: rev_induct)
  case Nil
  show ?case
    by (intro exI [of _ "[]"] exI [of _ None]) (simp add: pending_text_def)
next
  case (snoc fc ps)
  then obtain gs g pre fin where h:
    "foldl (merge_one cfg) (None, []) ps = (pre, fin)"
    "concat gs @ g = ps" "[] \<notin> set gs" "map chunk_text fin = map run_text gs"
    "pre = None \<longleftrightarrow> g = []" "pending_text pre = run_text g" "\<forall>x\<in>set gs. \<not> fst (last x)"
    by blast
  let ?c = "case pre of Some p \<Rightarrow> chunk_add p (snd fc) | None \<Rightarrow> snd fc"
  have ct: "chunk_text ?c = run_text (g @ [fc])"
    using h(6) by (simp add: pending_text_def split: option.splits)
  show ?case
  proof (cases "int (length (chunk_text ?c)) < min_text_length cfg \<or> fst fc")
    case True
    then have "foldl (merge_one cfg) (None, []) (ps @ [fc]) = (Some ?c, fin)"
      using h(1) by (simp add: merge_one_def Let_def)
    moreover have "concat gs @ (g @ [fc]) = ps @ [fc]" using h(2) by simp
    moreover have "pending_text (Some ?c) = run_text (g @ [fc])"
      using ct by (simp add: pending_text_def)
    ultimately show ?thesis
      using h(3,4,7) by (intro exI [of _ gs] exI [of _ "g @ [fc]"] exI [of _ "Some ?c"] exI [of _ fin]) simp
  next
    case False
    then have "foldl (merge_one cfg) (None, []) (ps @ [fc]) = (None, fin @ [?c])"
      using h(1) by (simp add: merge_one_def Let_def)
    moreover have "concat (gs @ [g @ [fc]]) @ [] = ps @ [fc]" using h(2) by simp
    moreover have "map chunk_text (fin @ [?c]) = map run_text (gs @ [g @ [fc]])"
      using h(4) ct by simp
    moreover have "\<forall>x\<in>set (gs @ [g @ [fc]]). \<not> fst (last x)" using h(7) False by simp
    moreover have "[] \<notin> set (gs @ [g @ [fc]])" using h(3) by simp
    ultimately show ?thesis
      by (intro exI [of _ "gs @ [g @ [fc]]"] exI [of _ "[]"] exI [of _ None] exI [of _ "fin @ [?c]"])
        (simp add: pending_text_def)
  qed
qed

lemma flush_runs:
  "\<exists>gs. concat gs = ps \<and> [] \<notin> set gs \<and>
     map chunk_text (flush (foldl (merge_one cfg) (None, []) ps)) = map run_text gs \<and>
     (\<forall>x\<in>set (butlast gs). \<not> fst (last x)) \<and>
     (fst (foldl (merge_one cfg) (None, []) ps) = None \<longrightarrow> (\<forall>x\<in>set gs. \<not> fst (last x)))"
proof -
  from foldl_merge_runs [of cfg ps] obtain gs g pre fin where h:
    "foldl (merge_one cfg) (None, []) ps = (pre, fin)"
    "concat gs @ g = ps" "[] \<notin> set gs" "map chunk_text fin = map run_text gs"
    "pre = None \<longleftrightarrow> g = []" "pending_text pre = run_text g" "\<forall>x\<in>set gs. \<not> fst (last x)"
    by blast
  show ?thesis
  proof (cases pre)
    case None
    with h show ?thesis
      by (intro exI [of _ gs]) (auto simp: flush_def dest: in_set_butlastD)
  next
    case (Some p)
    with h have "g \<noteq> []" by simp
    with Some h show ?thesis
      by (intro exI [of _ "gs @ [g]"]) (auto simp: flush_def pending_text_def)
  qed
qed

lemma marker_None: "map_of (attrib n) STRUCTURE_KEY = None \<longleftrightarrow> \<not> carries_marker n"
  unfolding carries_marker_def by (rule map_of_eq_None_iff [THEN trans]) simp

lemma marker_Some: "(\<exists>y. map_of (attrib n) STRUCTURE_KEY = Some y) \<longleftrightarrow> carries_marker n"
  using marker_None [of n] by auto

lemma is_structural_iff: "is_structural n \<longleftrightarrow> carries_marker n"
  by (simp add: is_structural_def marker_Some)

lemma is_descendant_iff: "is_descendant_of_structural ancs \<longleftrightarrow> (\<exists>a\<in>set ancs. carries_marker a)"
  by (induction ancs) (simp_all add: marker_Some)

lemma findall_descendants: "findall_structure n = filter carries_marker (descendants n)"
proof (induction n)
  case (Node t a cs)
  have "map (\<lambda>c. (if map_of (attrib c) STRUCTURE_KEY \<noteq> None then [c] else []) @ findall_structure c) cs
      = map (\<lambda>c. filter carries_marker (c # descendants c)) cs"
  proof (rule map_cong [OF refl])
    fix c assume "c \<in> set cs"
    then have "findall_structure c = filter carries_marker (descendants c)" by (rule Node)
    then show "(if map_of (attrib c) STRUCTURE_KEY \<noteq> None then [c] else []) @ findall_structure c
        = filter carries_marker (c # descendants c)"
      using marker_None [of c] by simp
  qed
  then have "findall_structure (Node t a cs)
      = concat (map (\<lambda>c. filter carries_marker (c # descendants c)) cs)"
    by (simp only: findall_structure.simps)
  also have "\<dots> = filter carries_marker (descendants (Node t a cs))"
    by (simp only: descendants.simps filter_concat map_map comp_def)
  finally show ?case .
qed

lemma has_structural_children_iff:
  "has_structural_children n \<longleftrightarrow> (\<exists>d\<in>set (descendants n). carries_marker d)"
  by (auto simp: has_structural_children_def findall_descendants filter_empty_conv)

lemma leaf_node_spec: "leaf_node cfg ancs n \<longleftrightarrow> spec_leaf cfg ancs n"
  by (simp add: leaf_node_def spec_leaf_def Let_def is_structural_iff is_descendant_iff
      has_structural_children_iff)

lemma traverse_unfold:
  "traverse E cfg ancs n st =
     (if leaf_node cfg ancs n then emit_leaf E cfg ancs n st
      else traverse_children E cfg (n # ancs) (children n) st)"
  by (cases n) simp

lemma leaf_items_text:
  assumes "0 < max_text_length cfg" "leaf_items E cfg ancs n = Inr ps"
  shows "run_text ps = node_text_of E cfg n"
proof -
  from assms(2) obtain ws where ws: "node_text_splits (node_text_of E cfg n) (max_text_length cfg) = Inr ws"
    and ps: "map (chunk_text \<circ> snd) ps = ws"
    by (auto simp: leaf_items_def build_chunks_def comp_def split: sum.splits)
  from splits_concat [OF assms(1) ws] ps show ?thesis by (simp add: run_text_def)
qed

lemma items_children_Cons:
  assumes "items_children E cfg ancs (child # rest) = Inr ps"
  obtains xs ys where "items E cfg ancs child = Inr xs" "items_children E cfg ancs rest = Inr ys"
    "ps = xs @ ys"
  using assms by (auto split: sum.splits)

lemma items_text:
  "0 < max_text_length cfg \<Longrightarrow> items E cfg ancs n = Inr ps \<Longrightarrow>
     run_text ps = concat (map (node_text_of E cfg) (leaves cfg ancs n))"
  "0 < max_text_length cfg \<Longrightarrow> items_children E cfg ancs ns = Inr ps \<Longrightarrow>
     run_text ps = concat (map (node_text_of E cfg) (leaves_children cfg ancs ns))"
proof (induction E cfg ancs n and E cfg ancs ns arbitrary: ps and ps rule: items_items_children.induct)
  case (1 E cfg ancs t a cs)
  then show ?case by (simp add: leaf_items_text split: if_splits)
next
  case (2 E cfg ancs)
  then show ?case by simp
next
  case (3 E cfg ancs child rest)
  from "3.prems"(2) obtain xs ys where x: "items E cfg ancs child = Inr xs"
    and y: "items_children E cfg ancs rest = Inr ys" and p: "ps = xs @ ys"
    by (rule items_children_Cons)
  from "3.IH"(1) [OF "3.prems"(1) x] "3.IH"(2) [OF x "3.prems"(1) y] p show ?case by simp
qed

lemma leaf_items_length:
  assumes "leaf_items E cfg ancs n = Inr ps" "fc \<in> set ps"
  shows "0 < length (chunk_text (snd fc)) \<and> int (length (chunk_text (snd fc))) \<le> max_text_length cfg
    \<and> fst fc = is_force_prepend_chunk n"
proof -
  from assms obtain ws w where ws: "node_text_splits (node_text_of E cfg n) (max_text_length cfg) = Inr ws"
    and w: "w \<in> set ws" "chunk_text (snd fc) = w" and f: "fst fc = is_force_prepend_chunk n"
    by (auto simp: leaf_items_def build_chunks_def split: sum.splits)
  from splits_length [OF ws w(1)] w(2) f show ?thesis by simp
qed

lemma items_length:
  "items E cfg ancs n = Inr ps \<Longrightarrow> fc \<in> set ps \<Longrightarrow>
     0 < length (chunk_text (snd fc)) \<and> int (length (chunk_text (snd fc))) \<le> max_text_length cfg"
  "items_children E cfg ancs ns = Inr ps \<Longrightarrow> fc \<in> set ps \<Longrightarrow>
     0 < length (chunk_text (snd fc)) \<and> int (length (chunk_text (snd fc))) \<le> max_text_length cfg"
proof (induction E cfg ancs n and E cfg ancs ns arbitrary: ps and ps rule: items_items_children.induct)
  case (1 E cfg ancs t a cs)
  show ?case
  proof (cases "leaf_node cfg ancs (Node t a cs)")
    case True
    with "1.prems"(1) have "leaf_items E cfg ancs (Node t a cs) = Inr ps" by simp
    from leaf_items_length [OF this "1.prems"(2)] show ?thesis by simp
  next
    case False
    with "1.prems"(1) have "items_children E cfg (Node t a cs # ancs) cs = Inr ps" by simp
    from "1.IH" [OF False this "1.prems"(2)] show ?thesis .
  qed
next
  case (2 E cfg ancs)
  then show ?case by simp
next
  case (3 E cfg ancs child rest)
  from "3.prems"(1) obtain xs ys where x: "items E cfg ancs child = Inr xs"
    and y: "items_children E cfg ancs rest = Inr ys" and p: "ps = xs @ ys"
    by (rule items_children_Cons)
  from p "3.prems"(2) consider "fc \<in> set xs" | "fc \<in> set ys" by auto
  then show ?case
    using "3.IH"(1) [OF x] "3.IH"(2) [OF x y] by cases simp_all
qed

lemma items_unmarked:
  "unmarked n \<Longrightarrow> \<not> is_descendant_of_structural ancs \<Longrightarrow> sub_chunk_tables cfg \<or> \<not> has_table n \<Longrightarrow>
     items E cfg ancs n = Inr [] \<and> leaves cfg ancs n = []"
  "list_all unmarked ns \<Longrightarrow> \<not> is_descendant_of_structural ancs \<Longrightarrow>
     sub_chunk_tables cfg \<or> \<not> list_ex has_table ns \<Longrightarrow>
     items_children E cfg ancs ns = Inr [] \<and> leaves_children cfg ancs ns = []"
proof (induction E cfg ancs n and E cfg ancs ns rule: items_items_children.induct)
  case (1 E cfg ancs t a cs)
  from 1(2,3,4) have nl: "\<not> leaf_node cfg ancs (Node t a cs)"
    by (auto simp: leaf_node_def)
  from 1(2) have "\<not> is_descendant_of_structural (Node t a cs # ancs)"
    using 1(3) by (simp add: is_structural_def)
  with 1 nl show ?case by auto
next
  case (2 E cfg ancs)
  then show ?case by simp
next
  case (3 E cfg ancs child rest)
  then show ?case by auto
qed

lemma xml_nth_ancestor_nth:
  "xml_nth_ancestor ancs n k =
     (drop (Suc (min k (length ancs))) (n # ancs), (n # ancs) ! min k (length ancs))"
  by (induction ancs n k rule: xml_nth_ancestor.induct) simp_all

lemma splits_first:
  assumes "node_text_splits s m = Inr (w # ws)"
  shows "w = take (nat m) s \<and> 0 < m \<and> s \<noteq> []"
proof -
  from assms have r: "py_range 0 (int (length s)) m \<noteq> []" and m0: "m \<noteq> 0"
    by (auto simp: node_text_splits_def split: if_splits)
  then have c: "0 < m \<and> 0 < int (length s)"
    by (subst (asm) py_range.simps) (auto split: if_splits)
  then have "py_range 0 (int (length s)) m = 0 # py_range (0 + m) (int (length s)) m"
    by (subst py_range.simps) simp
  with assms m0 c show ?thesis by (auto simp: node_text_splits_def py_slice_def)
qed

lemma ancestor_chunk_of_Some:
  assumes "xml_mode cfg" "0 < parent_hierarchy_levels cfg"
    "ancestor_chunk_of E cfg ancs n = Inr anc"
  shows "anc = Some (Chunk
      (clean_tag E ((n # ancs) ! min (nat (parent_hierarchy_levels cfg)) (length ancs)))
      (take (nat (max_text_length cfg))
        (simplified_xml E ((n # ancs) ! min (nat (parent_hierarchy_levels cfg)) (length ancs))
          (whitespace_normalize_text cfg)))
      (tostring E ((n # ancs) ! min (nat (parent_hierarchy_levels cfg)) (length ancs)))
      (structure_of ((n # ancs) ! min (nat (parent_hierarchy_levels cfg)) (length ancs)))
      (xpath E (drop (Suc (min (nat (parent_hierarchy_levels cfg)) (length ancs))) (n # ancs))
        ((n # ancs) ! min (nat (parent_hierarchy_levels cfg)) (length ancs)))
      None)"
proof -
  let ?k = "min (nat (parent_hierarchy_levels cfg)) (length ancs)"
  let ?A = "(n # ancs) ! ?k"
  let ?AA = "drop (Suc ?k) (n # ancs)"
  from assms obtain c cs where b: "build_chunks E cfg ?AA ?A = Inr (c # cs)" and a: "anc = Some c"
    by (auto simp: ancestor_chunk_of_def xml_nth_ancestor_nth split: sum.splits list.splits)
  from b obtain w ws where
    ws: "node_text_splits (node_text_of E cfg ?A) (max_text_length cfg) = Inr (w # ws)"
    and c: "c = Chunk (clean_tag E ?A) w (tostring E ?A) (structure_of ?A) (xpath E ?AA ?A) None"
    by (auto simp: build_chunks_def split: sum.splits)
  from splits_first [OF ws] assms(1) have "w = take (nat (max_text_length cfg))
      (simplified_xml E ?A (whitespace_normalize_text cfg))"
    by (simp add: node_text_of_def)
  with a c show ?thesis by simp
qed

lemma leaf_items_parent:
  assumes "leaf_items E cfg ancs n = Inr ps" "fc \<in> set ps"
  shows "if xml_mode cfg \<and> 0 < parent_hierarchy_levels cfg
         then chunk_parent (snd fc) = Some (context_chunk E cfg ancs n)
         else chunk_parent (snd fc) = None"
proof -
  from assms obtain anc where a: "ancestor_chunk_of E cfg ancs n = Inr anc"
    and p: "chunk_parent (snd fc) = anc"
    by (auto simp: leaf_items_def split: sum.splits)
  show ?thesis
  proof (cases "xml_mode cfg \<and> 0 < parent_hierarchy_levels cfg")
    case True
    with ancestor_chunk_of_Some [OF _ _ a] p show ?thesis
      by (simp add: context_chunk_def Let_def)
  next
    case False
    with a p show ?thesis by (auto simp: ancestor_chunk_of_def)
  qed
qed

lemma items_parent_None:
  "items E cfg ancs n = Inr ps \<Longrightarrow> \<not> (xml_mode cfg \<and> 0 < parent_hierarchy_levels cfg) \<Longrightarrow>
     fc \<in> set ps \<Longrightarrow> chunk_parent (snd fc) = None"
  "items_children E cfg ancs ns = Inr ps \<Longrightarrow> \<not> (xml_mode cfg \<and> 0 < parent_hierarchy_levels cfg) \<Longrightarrow>
     fc \<in> set ps \<Longrightarrow> chunk_parent (snd fc) = None"
proof (induction E cfg ancs n and E cfg ancs ns arbitrary: ps and ps rule: items_items_children.induct)
  case (1 E cfg ancs t a cs)
  show ?case
  proof (cases "leaf_node cfg ancs (Node t a cs)")
    case True
    with "1.prems"(1) have "leaf_items E cfg ancs (Node t a cs) = Inr ps" by simp
    from leaf_items_parent [OF this "1.prems"(3)] "1.prems"(2) show ?thesis by simp
  next
    case False
    with "1.prems"(1) have "items_children E cfg (Node t a cs # ancs) cs = Inr ps" by simp
    from "1.IH" [OF False this "1.prems"(2,3)] show ?thesis .
  qed
next
  case (2 E cfg ancs)
  then show ?case by simp
next
  case (3 E cfg ancs child rest)
  from "3.prems"(1) obtain xs ys where x: "items E cfg ancs child = Inr xs"
    and y: "items_children E cfg ancs rest = Inr ys" and p: "ps = xs @ ys"
    by (rule items_children_Cons)
  from p "3.prems"(3) consider "fc \<in> set xs" | "fc \<in> set ys" by auto
  then show ?case
    using "3.IH"(1) [OF x "3.prems"(2)] "3.IH"(2) [OF x y "3.prems"(2)] by cases simp_all
qed

lemmas model_defs = get_chunks_def demo_env_def demo_cfg_def para_def list_marker_def
  leaf_node_def is_structural_def
  has_structural_children_def STRUCTURE_KEY_def TABLE_NAME_def emit_leaf_def build_chunks_def
  node_text_of_def node_text_splits_def py_range.simps py_slice_def ancestor_chunk_of_def
  loop_body_def structure_of_def chunk_add_def is_force_prepend_chunk_def
  hier_cfg_def sample_table_def sample_section_def doc2_def doc3_def

lemma foldl_merge_runs_bound:
  assumes "\<forall>fc\<in>set ps. int (length (chunk_text (snd fc))) \<le> M"
  shows "\<exists>gs g pre fin. foldl (merge_one cfg) (None, []) ps = (pre, fin) \<and>
     concat gs @ g = ps \<and> [] \<notin> set gs \<and>
     map chunk_text fin = map run_text gs \<and>
     (pre = None \<longleftrightarrow> g = []) \<and> pending_text pre = run_text g \<and>
     (\<forall>x\<in>set (gs @ [g]). x \<noteq> [] \<longrightarrow> (butlast x \<noteq> [] \<longrightarrow> \<not> fst (last (butlast x))) \<longrightarrow>
        int (length (run_text x)) \<le> M + max (min_text_length cfg - 1) 0) \<and>
     (g \<noteq> [] \<longrightarrow> fst (last g) \<or> int (length (run_text g)) < min_text_length cfg)"
  using assms
proof (induction ps rule: rev_induct)
  case Nil
  show ?case
    by (intro exI [of _ "[]"] exI [of _ None]) (simp add: pending_text_def)
next
  case (snoc fc ps)
  from snoc.prems have "\<forall>fc\<in>set ps. int (length (chunk_text (snd fc))) \<le> M"
    and fcM: "int (length (chunk_text (snd fc))) \<le> M" by simp_all
  from snoc.IH [OF this(1)] obtain gs g pre fin where h:
    "foldl (merge_one cfg) (None, []) ps = (pre, fin)"
    "concat gs @ g = ps" "[] \<notin> set gs" "map chunk_text fin = map run_text gs"
    "pre = None \<longleftrightarrow> g = []" "pending_text pre = run_text g"
    and P: "\<forall>x\<in>set (gs @ [g]). x \<noteq> [] \<longrightarrow> (butlast x \<noteq> [] \<longrightarrow> \<not> fst (last (butlast x))) \<longrightarrow>
        int (length (run_text x)) \<le> M + max (min_text_length cfg - 1) 0"
    and H: "g \<noteq> [] \<longrightarrow> fst (last g) \<or> int (length (run_text g)) < min_text_length cfg"
    by blast
  let ?c = "case pre of Some p \<Rightarrow> chunk_add p (snd fc) | None \<Rightarrow> snd fc"
  let ?g = "g @ [fc]"
  have ct: "chunk_text ?c = run_text ?g"
    using h(6) by (simp add: pending_text_def split: option.splits)
  have Pg: "(butlast ?g \<noteq> [] \<longrightarrow> \<not> fst (last (butlast ?g))) \<longrightarrow>
      int (length (run_text ?g)) \<le> M + max (min_text_length cfg - 1) 0"
  proof
    assume a: "butlast ?g \<noteq> [] \<longrightarrow> \<not> fst (last (butlast ?g))"
    show "int (length (run_text ?g)) \<le> M + max (min_text_length cfg - 1) 0"
    proof (cases "g = []")
      case True
      with fcM show ?thesis by simp
    next
      case False
      with a have "\<not> fst (last g)" by simp
      with H False have "int (length (run_text g)) < min_text_length cfg" by simp
      with fcM show ?thesis by simp
    qed
  qed
  have Pgs: "\<forall>x\<in>set gs. x \<noteq> [] \<longrightarrow> (butlast x \<noteq> [] \<longrightarrow> \<not> fst (last (butlast x))) \<longrightarrow>
        int (length (run_text x)) \<le> M + max (min_text_length cfg - 1) 0"
    using P by simp
  show ?case
  proof (cases "int (length (chunk_text ?c)) < min_text_length cfg \<or> fst fc")
    case True
    then have f: "foldl (merge_one cfg) (None, []) (ps @ [fc]) = (Some ?c, fin)"
      using h(1) by (simp add: merge_one_def Let_def)
    have c: "concat gs @ ?g = ps @ [fc]" using h(2) by simp
    have pt: "pending_text (Some ?c) = run_text ?g"
      using ct by (simp add: pending_text_def)
    have P': "\<forall>x\<in>set (gs @ [?g]). x \<noteq> [] \<longrightarrow> (butlast x \<noteq> [] \<longrightarrow> \<not> fst (last (butlast x))) \<longrightarrow>
        int (length (run_text x)) \<le> M + max (min_text_length cfg - 1) 0"
      using Pgs Pg by simp
    have H': "?g \<noteq> [] \<longrightarrow> fst (last ?g) \<or> int (length (run_text ?g)) < min_text_length cfg"
      using True ct by auto
    have "foldl (merge_one cfg) (None, []) (ps @ [fc]) = (Some ?c, fin) \<and>
      concat gs @ ?g = ps @ [fc] \<and> [] \<notin> set gs \<and> map chunk_text fin = map run_text gs \<and>
      (Some ?c = None \<longleftrightarrow> ?g = []) \<and> pending_text (Some ?c) = run_text ?g \<and>
      (\<forall>x\<in>set (gs @ [?g]). x \<noteq> [] \<longrightarrow> (butlast x \<noteq> [] \<longrightarrow> \<not> fst (last (butlast x))) \<longrightarrow>
        int (length (run_text x)) \<le> M + max (min_text_length cfg - 1) 0) \<and>
      (?g \<noteq> [] \<longrightarrow> fst (last ?g) \<or> int (length (run_text ?g)) < min_text_length cfg)"
      using f c h(3,4) pt P' H' by (intro conjI) simp_all
    then show ?thesis by (intro exI)
  next
    case False
    then have f: "foldl (merge_one cfg) (None, []) (ps @ [fc]) = (None, fin @ [?c])"
      using h(1) by (simp add: merge_one_def Let_def)
    have c: "concat (gs @ [?g]) @ [] = ps @ [fc]" using h(2) by simp
    have m: "map chunk_text (fin @ [?c]) = map run_text (gs @ [?g])"
      using h(4) ct by simp
    have n: "[] \<notin> set (gs @ [?g])" using h(3) by simp
    have P': "\<forall>x\<in>set ((gs @ [?g]) @ [[]]). x \<noteq> [] \<longrightarrow> (butlast x \<noteq> [] \<longrightarrow> \<not> fst (last (butlast x))) \<longrightarrow>
        int (length (run_text x)) \<le> M + max (min_text_length cfg - 1) 0"
      using Pgs Pg by simp
    have "foldl (merge_one cfg) (None, []) (ps @ [fc]) = (None, fin @ [?c]) \<and>
      concat (gs @ [?g]) @ [] = ps @ [fc] \<and> [] \<notin> set (gs @ [?g]) \<and>
      map chunk_text (fin @ [?c]) = map run_text (gs @ [?g]) \<and>
      ((None :: chunk option) = None \<longleftrightarrow> ([] :: (bool \<times> chunk) list) = []) \<and>
      pending_text None = run_text [] \<and>
      (\<forall>x\<in>set ((gs @ [?g]) @ [[]]). x \<noteq> [] \<longrightarrow> (butlast x \<noteq> [] \<longrightarrow> \<not> fst (last (butlast x))) \<longrightarrow>
        int (length (run_text x)) \<le> M + max (min_text_length cfg - 1) 0) \<and>
      (([] :: (bool \<times> chunk) list) \<noteq> [] \<longrightarrow> fst (last []) \<or>
         int (length (run_text [])) < min_text_length cfg)"
      using f c n m P' by (intro conjI) (simp_all add: pending_text_def)
    then show ?thesis by (intro exI)
  qed
qed

lemma flush_runs_bound:
  assumes "\<forall>fc\<in>set ps. int (length (chunk_text (snd fc))) \<le> M"
  shows "\<exists>gs. concat gs = ps \<and> [] \<notin> set gs \<and>
     map chunk_text (flush (foldl (merge_one cfg) (None, []) ps)) = map run_text gs \<and>
     (\<forall>x\<in>set gs. (butlast x \<noteq> [] \<longrightarrow> \<not> fst (last (butlast x))) \<longrightarrow>
        int (length (run_text x)) \<le> M + max (min_text_length cfg - 1) 0)"
proof -
  from foldl_merge_runs_bound [OF assms, of cfg] obtain gs g pre fin where h:
    "foldl (merge_one cfg) (None, []) ps = (pre, fin)"
    "concat gs @ g = ps" "[] \<notin> set gs" "map chunk_text fin = map run_text gs"
    "pre = None \<longleftrightarrow> g = []" "pending_text pre = run_text g"
    and P: "\<forall>x\<in>set (gs @ [g]). x \<noteq> [] \<longrightarrow> (butlast x \<noteq> [] \<longrightarrow> \<not> fst (last (butlast x))) \<longrightarrow>
        int (length (run_text x)) \<le> M + max (min_text_length cfg - 1) 0"
    by blast
  show ?thesis
  proof (cases pre)
    case None
    with h have g: "g = []" by simp
    have "concat gs = ps \<and> [] \<notin> set gs \<and>
     map chunk_text (flush (foldl (merge_one cfg) (None, []) ps)) = map run_text gs \<and>
     (\<forall>x\<in>set gs. (butlast x \<noteq> [] \<longrightarrow> \<not> fst (last (butlast x))) \<longrightarrow>
        int (length (run_text x)) \<le> M + max (min_text_length cfg - 1) 0)"
      using h(1,2,3,4) g None P by (intro conjI) (auto simp: flush_def)
    then show ?thesis by (intro exI)
  next
    case (Some p)
    with h have g: "g \<noteq> []" by simp
    have "concat (gs @ [g]) = ps \<and> [] \<notin> set (gs @ [g]) \<and>
     map chunk_text (flush (foldl (merge_one cfg) (None, []) ps)) = map run_text (gs @ [g]) \<and>
     (\<forall>x\<in>set (gs @ [g]). (butlast x \<noteq> [] \<longrightarrow> \<not> fst (last (butlast x))) \<longrightarrow>
        int (length (run_text x)) \<le> M + max (min_text_length cfg - 1) 0)"
      using h(1,2,3,4,6) g Some P by (intro conjI) (auto simp: flush_def pending_text_def)
    then show ?thesis by (intro exI)
  qed
qed

lemma foldl_Inl:
  "foldl (\<lambda>r c. case r of Inl e \<Rightarrow> Inl e | Inr s \<Rightarrow> f c s) (Inl e) cs = Inl e"
  by (induction cs) simp_all

lemma traverse_children_foldl:
  "traverse_children E cfg ancs cs st =
     foldl (\<lambda>r c. case r of Inl e \<Rightarrow> Inl e | Inr s \<Rightarrow> traverse E cfg ancs c s) (Inr st) cs"
proof (induction cs arbitrary: st)
  case Nil
  show ?case by simp
next
  case (Cons c cs)
  show ?case
  proof (cases "traverse E cfg ancs c st")
    case (Inl e)
    then show ?thesis by (simp add: foldl_Inl)
  next
    case (Inr s)
    with Cons [of s] show ?thesis by simp
  qed
qed

lemmas items_defs = model_defs leaf_items_def set_parent_def doc_lim_def doc_lim_last_def
  marked_table_def flat_env_def


lemma positions_unmarked:
  "unmarked n \<Longrightarrow> \<not> is_descendant_of_structural ancs \<Longrightarrow>
   sub_chunk_tables cfg \<or> \<not> has_table n \<Longrightarrow>
   am \<in> set (positions ancs n) \<Longrightarrow> \<not> leaf_node cfg (fst am) (snd am)"
proof (induction n arbitrary: ancs)
  case (Node t a cs)
  from Node.prems(1,2,3) have nl: "\<not> leaf_node cfg ancs (Node t a cs)"
    by (auto simp: leaf_node_def)
  from Node.prems(1,2) have d: "\<not> is_descendant_of_structural (Node t a cs # ancs)"
    by (simp add: is_structural_def)
  from Node.prems(4) consider "am = (ancs, Node t a cs)"
    | c where "c \<in> set cs" "am \<in> set (positions (Node t a cs # ancs) c)"
    by auto
  then show ?case
  proof cases
    case 1
    with nl show ?thesis by simp
  next
    case 2
    from 2(1) Node.prems(1) have u: "unmarked c" by (simp add: list_all_iff)
    from 2(1) Node.prems(3) have h: "sub_chunk_tables cfg \<or> \<not> has_table c"
      by (auto simp: list_ex_iff)
    from Node.IH [OF 2(1) u d h 2(2)] show ?thesis .
  qed
qed

lemma leaves_table:
  "unmarked n \<Longrightarrow> \<not> is_descendant_of_structural ancs \<Longrightarrow> \<not> sub_chunk_tables cfg \<Longrightarrow>
     has_table n \<Longrightarrow> leaves cfg ancs n \<noteq> []"
  "list_all unmarked ns \<Longrightarrow> \<not> is_descendant_of_structural ancs \<Longrightarrow> \<not> sub_chunk_tables cfg \<Longrightarrow>
     list_ex has_table ns \<Longrightarrow> leaves_children cfg ancs ns \<noteq> []"
proof (induction cfg ancs n and cfg ancs ns rule: leaves_leaves_children.induct)
  case (1 cfg ancs t a cs)
  show ?case
  proof (cases "leaf_node cfg ancs (Node t a cs)")
    case True
    then show ?thesis by simp
  next
    case False
    with "1.prems"(3) have "t \<noteq> TABLE_NAME" by (auto simp: leaf_node_def)
    with "1.prems"(4) have e: "list_ex has_table cs" by simp
    from "1.prems"(1,2) have d: "\<not> is_descendant_of_structural (Node t a cs # ancs)"
      by (simp add: is_structural_def)
    from "1.prems"(1) have u: "list_all unmarked cs" by simp
    from "1.IH" [OF False u d "1.prems"(3) e] False show ?thesis by simp
  qed
next
  case (2 cfg ancs)
  then show ?case by simp
next
  case (3 cfg ancs child rest)
  from "3.prems"(4) consider "has_table child" | "list_ex has_table rest" by auto
  then show ?case
  proof cases
    case 1
    from "3.IH"(1) [OF _ "3.prems"(2,3) 1] "3.prems"(1) show ?thesis by simp
  next
    case 2
    from "3.IH"(2) [OF _ "3.prems"(2,3) 2] "3.prems"(1) show ?thesis by simp
  qed
qed

section \<open>The claims\<close>

subsection \<open>C1: the length ceiling\<close>

text \<open>
  Against C1 as stated, with \<open>min_text_length = 8\<close> and \<open>max_text_length = 10\<close>: a leaf of 5
  characters is held back and joined to the next leaf's window of 10 characters, so the
  only chunk returned for \<open>doc2\<close> has 15 characters; and the window of a \<open>lim\<close> leaf is held
  back whatever its length, so the first chunk returned for \<open>doc_lim\<close> has 20 characters,
  more than \<open>max_text_length + min_text_length - 1\<close>.
\<close>

theorem merged_chunk_exceeds_max:
  "get_chunks (demo_env tag) (demo_cfg 8 10) [] doc2 =
     Inr [Chunk ''0123456789'' ''Hello0123456789'' ''0123456789'' ''p'' ''0123456789'' None] \<and>
   max_text_length (demo_cfg 8 10) < int (length ''Hello0123456789'') \<and>
   map chunk_text (projr (get_chunks (demo_env tag) (demo_cfg 8 10) [] doc_lim)) =
     [''0123456789abcdefghij'', ''ABCDEFGHIJ''] \<and>
   max_text_length (demo_cfg 8 10) + max (min_text_length (demo_cfg 8 10) - 1) 0
     < int (length ''0123456789abcdefghij'')"
  by (simp add: items_defs)

text \<open>
  C1, amended: for every input tree and every configuration, every chunk that \<open>get_chunks\<close>
  returns is the concatenation of a run of consecutive windows (the provisional chunks of
  the leaves, in traversal order), every window is non-empty and at most
  \<open>max_text_length\<close> long, and the text of the chunk has at most
  \<open>max_text_length + max (min_text_length - 1) 0\<close> characters unless the window just
  before the last window of the run was cut from a \<open>lim\<close> leaf.
\<close>

theorem chunk_length_bound:
  assumes "get_chunks E cfg ancs n = Inr cs"
  shows "\<exists>ps gs. items E cfg ancs n = Inr ps \<and> concat gs = ps \<and> [] \<notin> set gs \<and>
           map chunk_text cs = map run_text gs \<and>
           (\<forall>fc\<in>set ps. 0 < length (chunk_text (snd fc)) \<and>
              int (length (chunk_text (snd fc))) \<le> max_text_length cfg) \<and>
           (\<forall>g\<in>set gs. (butlast g \<noteq> [] \<longrightarrow> \<not> fst (last (butlast g))) \<longrightarrow>
              int (length (run_text g)) \<le>
                max_text_length cfg + max (min_text_length cfg - 1) 0)"
proof -
  from assms obtain ps where ps: "items E cfg ancs n = Inr ps"
    and cs: "cs = flush (foldl (merge_one cfg) (None, []) ps)"
    by (auto simp: get_chunks_items split: sum.splits)
  have w: "\<forall>fc\<in>set ps. 0 < length (chunk_text (snd fc)) \<and>
      int (length (chunk_text (snd fc))) \<le> max_text_length cfg"
    using items_length(1) [OF ps] by blast
  then have "\<forall>fc\<in>set ps. int (length (chunk_text (snd fc))) \<le> max_text_length cfg"
    by blast
  from flush_runs_bound [OF this, of cfg] obtain gs where gs: "concat gs = ps \<and> [] \<notin> set gs \<and>
     map chunk_text (flush (foldl (merge_one cfg) (None, []) ps)) = map run_text gs \<and>
     (\<forall>x\<in>set gs. (butlast x \<noteq> [] \<longrightarrow> \<not> fst (last (butlast x))) \<longrightarrow>
        int (length (run_text x)) \<le> max_text_length cfg + max (min_text_length cfg - 1) 0)"
    by (rule exE)
  have "items E cfg ancs n = Inr ps \<and> concat gs = ps \<and> [] \<notin> set gs \<and>
           map chunk_text cs = map run_text gs \<and>
           (\<forall>fc\<in>set ps. 0 < length (chunk_text (snd fc)) \<and>
              int (length (chunk_text (snd fc))) \<le> max_text_length cfg) \<and>
           (\<forall>g\<in>set gs. (butlast g \<noteq> [] \<longrightarrow> \<not> fst (last (butlast g))) \<longrightarrow>
              int (length (run_text g)) \<le>
                max_text_length cfg + max (min_text_length cfg - 1) 0)"
    using ps gs w unfolding cs by (elim conjE) (intro conjI; assumption)
  then show ?thesis by (intro exI)
qed

theorem chunk_length_bound_witness:
  "get_chunks (demo_env tag) (demo_cfg 8 10) [] doc2 =
     Inr [Chunk ''0123456789'' ''Hello0123456789'' ''0123456789'' ''p'' ''0123456789'' None] \<and>
   items (demo_env tag) (demo_cfg 8 10) [] doc2 =
     Inr [(False, Chunk ''Hello'' ''Hello'' ''Hello'' ''p'' ''Hello'' None),
          (False, Chunk ''0123456789'' ''0123456789'' ''0123456789'' ''p'' ''0123456789'' None)] \<and>
   max_text_length (demo_cfg 8 10) < int (length ''Hello0123456789'') \<and>
   int (length ''Hello0123456789'') \<le>
     max_text_length (demo_cfg 8 10) + max (min_text_length (demo_cfg 8 10) - 1) 0"
proof -
  let ?m = "Chunk ''0123456789'' ''Hello0123456789'' ''0123456789'' ''p'' ''0123456789'' None"
  let ?ps = "[(False, Chunk ''Hello'' ''Hello'' ''Hello'' ''p'' ''Hello'' None),
          (False, Chunk ''0123456789'' ''0123456789'' ''0123456789'' ''p'' ''0123456789'' None)]"
  have a: "get_chunks (demo_env tag) (demo_cfg 8 10) [] doc2 = Inr [?m]"
    by (simp add: items_defs)
  have b: "items (demo_env tag) (demo_cfg 8 10) [] doc2 = Inr ?ps"
    by (simp add: items_defs)
  have c: "max_text_length (demo_cfg 8 10) < int (length ''Hello0123456789'')"
    by (simp add: demo_cfg_def)
  from chunk_length_bound [OF a] obtain ps gs where h:
    "items (demo_env tag) (demo_cfg 8 10) [] doc2 = Inr ps" "concat gs = ps"
    "map chunk_text [?m] = map run_text gs"
    "\<forall>g\<in>set gs. (butlast g \<noteq> [] \<longrightarrow> \<not> fst (last (butlast g))) \<longrightarrow>
       int (length (run_text g)) \<le>
         max_text_length (demo_cfg 8 10) + max (min_text_length (demo_cfg 8 10) - 1) 0"
    by (elim exE conjE)
  from h(1) b have ps: "ps = ?ps" by simp
  from h(3) obtain g where g: "gs = [g]" by (cases gs) auto
  with h(2) ps have "g = ?ps" by simp
  with g h(3,4) have d: "int (length ''Hello0123456789'') \<le>
     max_text_length (demo_cfg 8 10) + max (min_text_length (demo_cfg 8 10) - 1) 0"
    by simp
  from a b c d show ?thesis by (intro conjI)
qed

subsection \<open>C2: no character is lost\<close>

text \<open>
  Against C2 as stated: \<open>range\<close> with a negative step is empty, so with
  \<open>max_text_length = -1\<close> a leaf that renders to \<open>Hello\<close> yields no chunk at all.
\<close>

theorem text_dropped_for_negative_max:
  "get_chunks (demo_env tag) (demo_cfg 8 (- 1)) [] (para ''Hello'') = Inr [] \<and>
   concat (map (node_text_of (demo_env tag) (demo_cfg 8 (- 1)))
     (leaves (demo_cfg 8 (- 1)) [] (para ''Hello''))) = ''Hello''"
  by (simp add: model_defs)

text \<open>
  C2, amended: when \<open>max_text_length\<close> is positive, the texts of the chunks that
  \<open>get_chunks\<close> returns, joined in output order, are the rendered texts of the
  leaf-classified nodes joined in document order.
\<close>

theorem text_preserved:
  assumes "0 < max_text_length cfg" and "get_chunks E cfg ancs n = Inr cs"
  shows "concat (map chunk_text cs) = concat (map (node_text_of E cfg) (leaves cfg ancs n))"
proof -
  from assms(2) obtain ps where ps: "items E cfg ancs n = Inr ps"
    and cs: "cs = flush (foldl (merge_one cfg) (None, []) ps)"
    by (auto simp: get_chunks_items split: sum.splits)
  obtain pre fin where f: "foldl (merge_one cfg) (None, []) ps = (pre, fin)"
    by (cases "foldl (merge_one cfg) (None, []) ps")
  from foldl_merge_text [OF f] have "concat (map chunk_text fin) @ pending_text pre = run_text ps"
    by (simp add: pending_text_def run_text_def)
  with cs f have "concat (map chunk_text cs) = run_text ps" by (simp add: flush_text)
  with items_text(1) [OF assms(1) ps] show ?thesis by simp
qed

theorem text_preserved_witness:
  "0 < max_text_length (demo_cfg 8 4) \<and>
   get_chunks (demo_env tag) (demo_cfg 8 4) [] doc2 =
     Inr [Chunk ''0123456789'' ''Hello0123'' ''0123456789'' ''p'' ''0123456789'' None,
          Chunk ''0123456789'' ''456789'' ''0123456789'' ''p'' ''0123456789'' None] \<and>
   concat (map (node_text_of (demo_env tag) (demo_cfg 8 4)) (leaves (demo_cfg 8 4) [] doc2)) =
     ''Hello0123456789''"
proof -
  have a: "0 < max_text_length (demo_cfg 8 4)" by (simp add: demo_cfg_def)
  have b: "get_chunks (demo_env tag) (demo_cfg 8 4) [] doc2 =
     Inr [Chunk ''0123456789'' ''Hello0123'' ''0123456789'' ''p'' ''0123456789'' None,
          Chunk ''0123456789'' ''456789'' ''0123456789'' ''p'' ''0123456789'' None]"
    by (simp add: model_defs doc2_def)
  from text_preserved [OF a b]
  have c: "concat (map (node_text_of (demo_env tag) (demo_cfg 8 4)) (leaves (demo_cfg 8 4) [] doc2)) =
     ''Hello0123456789''" by simp
  from a b c show ?thesis by (intro conjI)
qed

subsection \<open>C3: the length floor\<close>

text \<open>
  C3: every chunk of the returned list but the last has a text of at least
  \<open>min_text_length\<close> characters (no exception is needed for chunks merged after a \<open>lim\<close>
  leaf: a chunk is appended inside the loop only when it is long enough and its leaf is
  not force-merge); and a chunk still pending when the traversal ends is the last chunk
  of the returned list.
\<close>

theorem emitted_chunks_reach_min:
  assumes "get_chunks E cfg ancs n = Inr cs"
  shows "(\<forall>c\<in>set (butlast cs). min_text_length cfg \<le> int (length (chunk_text c))) \<and>
         (\<forall>p fin. traverse E cfg ancs n (None, []) = Inr (Some p, fin) \<longrightarrow> cs = fin @ [p])"
proof -
  from assms obtain ps where ps: "items E cfg ancs n = Inr ps"
    and cs: "cs = flush (foldl (merge_one cfg) (None, []) ps)"
    by (auto simp: get_chunks_items split: sum.splits)
  obtain pre fin where f: "foldl (merge_one cfg) (None, []) ps = (pre, fin)"
    by (cases "foldl (merge_one cfg) (None, []) ps")
  from foldl_merge_min [OF f] have m: "\<forall>c\<in>set fin. min_text_length cfg \<le> int (length (chunk_text c))"
    by simp
  have "set (butlast cs) \<subseteq> set fin"
    using cs f by (auto simp: flush_def split: option.splits dest: in_set_butlastD)
  with m have 1: "\<forall>c\<in>set (butlast cs). min_text_length cfg \<le> int (length (chunk_text c))" by blast
  have 2: "\<forall>p fin. traverse E cfg ancs n (None, []) = Inr (Some p, fin) \<longrightarrow> cs = fin @ [p]"
    using assms by (auto simp: get_chunks_def)
  from 1 2 show ?thesis by blast
qed

theorem emitted_chunks_reach_min_witness:
  "get_chunks (demo_env tag) (demo_cfg 8 4) [] doc2 =
     Inr [Chunk ''0123456789'' ''Hello0123'' ''0123456789'' ''p'' ''0123456789'' None,
          Chunk ''0123456789'' ''456789'' ''0123456789'' ''p'' ''0123456789'' None] \<and>
   min_text_length (demo_cfg 8 4) \<le> int (length ''Hello0123'') \<and>
   int (length ''456789'') < min_text_length (demo_cfg 8 4)"
proof -
  have b: "get_chunks (demo_env tag) (demo_cfg 8 4) [] doc2 =
     Inr [Chunk ''0123456789'' ''Hello0123'' ''0123456789'' ''p'' ''0123456789'' None,
          Chunk ''0123456789'' ''456789'' ''0123456789'' ''p'' ''0123456789'' None]"
    by (simp add: model_defs doc2_def)
  from emitted_chunks_reach_min [OF b]
  have c: "min_text_length (demo_cfg 8 4) \<le> int (length ''Hello0123'')" by simp
  have d: "int (length ''456789'') < min_text_length (demo_cfg 8 4)" by (simp add: demo_cfg_def)
  from b c d show ?thesis by (intro conjI)
qed

subsection \<open>C4: the leaf classifier\<close>

text \<open>
  C4: the traversal stops at a node and emits it exactly when the node is table-typed with
  \<open>sub_chunk_tables\<close> off, or carries a marker that no descendant at any depth carries, or
  lies below a marked ancestor and has no marked descendant (\<open>spec_leaf\<close>, in the words of
  the specification). At such a node the provisional chunks of the node itself go through
  the merger, so with a positive \<open>max_text_length\<close> the whole rendered text of the node is
  added to what is emitted or pending. At any other node the result is that of traversing
  the children one after the other in document order, each from the state the one before
  left, with the node as nearest ancestor; errors pass through, and nothing is built from
  the node itself. The classification has no access to a renderer, and changing the two
  length bounds does not change it.
\<close>

theorem leaf_classification:
  "(leaf_node cfg ancs n \<longleftrightarrow> spec_leaf cfg ancs n) \<and>
   (spec_leaf cfg ancs n \<longrightarrow>
      leaves cfg ancs n = [n] \<and>
      traverse E cfg ancs n st =
        (case leaf_items E cfg ancs n of
           Inl e \<Rightarrow> Inl e
         | Inr ps \<Rightarrow> Inr (foldl (merge_one cfg) st ps)) \<and>
      (\<forall>pre' fin'. 0 < max_text_length cfg \<and> traverse E cfg ancs n st = Inr (pre', fin') \<longrightarrow>
         concat (map chunk_text fin') @ pending_text pre' =
         concat (map chunk_text (snd st)) @ pending_text (fst st) @ node_text_of E cfg n)) \<and>
   (\<not> spec_leaf cfg ancs n \<longrightarrow>
      traverse E cfg ancs n st =
        foldl (\<lambda>r c. case r of Inl e \<Rightarrow> Inl e | Inr s \<Rightarrow> traverse E cfg (n # ancs) c s)
          (Inr st) (children n)) \<and>
   leaf_node (cfg\<lparr>min_text_length := lo, max_text_length := hi\<rparr>) ancs n = leaf_node cfg ancs n"
proof (intro conjI impI allI)
  show "leaf_node cfg ancs n \<longleftrightarrow> spec_leaf cfg ancs n"
    by (rule leaf_node_spec)
  show "leaf_node (cfg\<lparr>min_text_length := lo, max_text_length := hi\<rparr>) ancs n = leaf_node cfg ancs n"
    by (simp add: leaf_node_def)
next
  assume "spec_leaf cfg ancs n"
  then have l: "leaf_node cfg ancs n" by (simp add: leaf_node_spec)
  then show "leaves cfg ancs n = [n]" by (cases n) simp
  from l show t: "traverse E cfg ancs n st =
        (case leaf_items E cfg ancs n of
           Inl e \<Rightarrow> Inl e
         | Inr ps \<Rightarrow> Inr (foldl (merge_one cfg) st ps))"
    by (simp add: traverse_unfold emit_leaf_items)
  fix pre' fin'
  assume h: "0 < max_text_length cfg \<and> traverse E cfg ancs n st = Inr (pre', fin')"
  with t obtain ps where ps: "leaf_items E cfg ancs n = Inr ps"
    and f: "foldl (merge_one cfg) (fst st, snd st) ps = (pre', fin')"
    by (auto split: sum.splits)
  from h leaf_items_text [OF _ ps] have "run_text ps = node_text_of E cfg n" by simp
  with foldl_merge_text [OF f]
  show "concat (map chunk_text fin') @ pending_text pre' =
         concat (map chunk_text (snd st)) @ pending_text (fst st) @ node_text_of E cfg n"
    by (simp add: run_text_def)
next
  assume "\<not> spec_leaf cfg ancs n"
  then have "\<not> leaf_node cfg ancs n" by (simp add: leaf_node_spec)
  then show "traverse E cfg ancs n st =
        foldl (\<lambda>r c. case r of Inl e \<Rightarrow> Inl e | Inr s \<Rightarrow> traverse E cfg (n # ancs) c s)
          (Inr st) (children n)"
    by (simp add: traverse_unfold traverse_children_foldl)
qed

theorem leaf_classification_witness:
  "spec_leaf (demo_cfg 8 10) [doc2] (para ''0123456789'') \<and>
   traverse (demo_env tag) (demo_cfg 8 10) [doc2] (para ''0123456789'')
       (Some (Chunk ''Hello'' ''Hello'' ''Hello'' ''p'' ''Hello'' None), []) =
     Inr (None, [Chunk ''0123456789'' ''Hello0123456789'' ''0123456789'' ''p'' ''0123456789'' None]) \<and>
   \<not> spec_leaf (demo_cfg 8 10) [] doc2 \<and>
   children doc2 = [para ''Hello'', para ''0123456789''] \<and>
   traverse (demo_env tag) (demo_cfg 8 10) [doc2] (para ''Hello'') (None, []) =
     Inr (Some (Chunk ''Hello'' ''Hello'' ''Hello'' ''p'' ''Hello'' None), []) \<and>
   traverse (demo_env tag) (demo_cfg 8 10) [] doc2 (None, []) =
     Inr (None, [Chunk ''0123456789'' ''Hello0123456789'' ''0123456789'' ''p'' ''0123456789'' None])"
proof -
  let ?E = "demo_env tag" and ?cfg = "demo_cfg 8 10"
  let ?h = "Chunk ''Hello'' ''Hello'' ''Hello'' ''p'' ''Hello'' None"
  let ?m = "Chunk ''0123456789'' ''Hello0123456789'' ''0123456789'' ''p'' ''0123456789'' None"
  have a: "leaf_node ?cfg [doc2] (para ''0123456789'')"
    by (simp add: model_defs)
  from a leaf_classification [of ?cfg "[doc2]" "para ''0123456789''"]
  have 1: "spec_leaf ?cfg [doc2] (para ''0123456789'')" by blast
  have li: "leaf_items ?E ?cfg [doc2] (para ''0123456789'') =
      Inr [(False, Chunk ''0123456789'' ''0123456789'' ''0123456789'' ''p'' ''0123456789'' None)]"
    by (simp add: items_defs)
  from 1 leaf_classification [of ?cfg "[doc2]" "para ''0123456789''" ?E "(Some ?h, [])"]
  have "traverse ?E ?cfg [doc2] (para ''0123456789'') (Some ?h, []) =
      (case leaf_items ?E ?cfg [doc2] (para ''0123456789'') of
         Inl e \<Rightarrow> Inl e | Inr ps \<Rightarrow> Inr (foldl (merge_one ?cfg) (Some ?h, []) ps))"
    by blast
  then have 2: "traverse ?E ?cfg [doc2] (para ''0123456789'') (Some ?h, []) = Inr (None, [?m])"
    unfolding li by (simp add: merge_one_def chunk_add_def demo_cfg_def)
  have b: "\<not> leaf_node ?cfg [] doc2" by (simp add: model_defs)
  from b leaf_classification [of ?cfg "[]" doc2]
  have 3: "\<not> spec_leaf ?cfg [] doc2" by blast
  have 4: "children doc2 = [para ''Hello'', para ''0123456789'']" by (simp add: doc2_def)
  have 5: "traverse ?E ?cfg [doc2] (para ''Hello'') (None, []) = Inr (Some ?h, [])"
    by (simp add: model_defs)
  from 3 leaf_classification [of ?cfg "[]" doc2 ?E "(None, [])"]
  have "traverse ?E ?cfg [] doc2 (None, []) =
      foldl (\<lambda>r c. case r of Inl e \<Rightarrow> Inl e | Inr s \<Rightarrow> traverse ?E ?cfg [doc2] c s)
        (Inr (None, [])) (children doc2)"
    by blast
  then have 6: "traverse ?E ?cfg [] doc2 (None, []) = Inr (None, [?m])"
    by (simp only: 4 foldl.simps 5 sum.case 2)
  from 1 2 3 4 5 6 show ?thesis by (intro conjI)
qed

subsection \<open>C5: force-merge leaves\<close>

text \<open>
  Against C5 as stated: a short leaf \<open>ab\<close> is pending when the \<open>lim\<close> leaf \<open>1.\<close> is
  reached, so the text of the \<open>lim\<close> leaf is not a prefix of the chunk it ends up in; that
  chunk is appended inside the loop and nothing is pending at the end.
\<close>

theorem lim_text_not_a_prefix:
  "get_chunks (demo_env tag) (demo_cfg 8 10) [] doc3 =
     Inr [Chunk ''0123456789'' ''ab1.0123456789'' ''0123456789'' ''p'' ''0123456789'' None] \<and>
   traverse (demo_env tag) (demo_cfg 8 10) [] doc3 (None, []) =
     Inr (None, [Chunk ''0123456789'' ''ab1.0123456789'' ''0123456789'' ''p'' ''0123456789'' None]) \<and>
   is_force_prepend_chunk (list_marker ''1.'') \<and>
   node_text_of (demo_env tag) (demo_cfg 8 10) (list_marker ''1.'') = ''1.'' \<and>
   \<not> prefix ''1.'' ''ab1.0123456789''"
  by (simp add: model_defs doc3_def)

text \<open>
  C5, amended: for every input tree and configuration, a chunk originating from a \<open>lim\<close>
  leaf never appears on its own in the returned list, irrespective of its text length.
  Every returned chunk is the concatenation of a run of consecutive provisional chunks
  (the windows of the leaves, in traversal order, each with the force-merge flag of its
  leaf); no run but the last ends with a window of a \<open>lim\<close> leaf, and the last one does so
  only if it is the pending chunk flushed at the end of the traversal. So inside its
  returned chunk the text of a \<open>lim\<close> leaf is followed by the text of a later provisional
  chunk, or it is part of the final flushed chunk.
\<close>

theorem lim_chunk_merged_forward:
  assumes "get_chunks E cfg ancs n = Inr cs"
  shows "\<exists>ps gs. items E cfg ancs n = Inr ps \<and> concat gs = ps \<and> [] \<notin> set gs \<and>
           map chunk_text cs = map run_text gs \<and>
           (\<forall>g\<in>set (butlast gs). \<not> fst (last g)) \<and>
           (\<forall>fin. traverse E cfg ancs n (None, []) = Inr (None, fin) \<longrightarrow>
              (\<forall>g\<in>set gs. \<not> fst (last g)))"
proof -
  from assms obtain ps where ps: "items E cfg ancs n = Inr ps"
    and cs: "cs = flush (foldl (merge_one cfg) (None, []) ps)"
    by (auto simp: get_chunks_items split: sum.splits)
  from flush_runs [of ps cfg] obtain gs where gs: "concat gs = ps \<and> [] \<notin> set gs \<and>
    map chunk_text (flush (foldl (merge_one cfg) (None, []) ps)) = map run_text gs \<and>
    (\<forall>x\<in>set (butlast gs). \<not> fst (last x)) \<and>
    (fst (foldl (merge_one cfg) (None, []) ps) = None \<longrightarrow> (\<forall>x\<in>set gs. \<not> fst (last x)))"
    by (rule exE)
  have t: "\<forall>fin. traverse E cfg ancs n (None, []) = Inr (None, fin) \<longrightarrow>
      (\<forall>g\<in>set gs. \<not> fst (last g))"
  proof (intro allI impI)
    fix fin assume "traverse E cfg ancs n (None, []) = Inr (None, fin)"
    with ps have "fst (foldl (merge_one cfg) (None, []) ps) = None"
      by (simp add: traverse_items)
    with gs show "\<forall>g\<in>set gs. \<not> fst (last g)" by blast
  qed
  have "items E cfg ancs n = Inr ps \<and> concat gs = ps \<and> [] \<notin> set gs \<and>
    map chunk_text cs = map run_text gs \<and>
    (\<forall>g\<in>set (butlast gs). \<not> fst (last g)) \<and>
    (\<forall>fin. traverse E cfg ancs n (None, []) = Inr (None, fin) \<longrightarrow>
       (\<forall>g\<in>set gs. \<not> fst (last g)))"
    using ps gs t unfolding cs by (elim conjE) (intro conjI; assumption)
  then show ?thesis by (intro exI)
qed

theorem lim_chunk_merged_forward_witness:
  "items (demo_env tag) (demo_cfg 8 10) [] doc_lim =
     Inr [(True, Chunk ''0123456789'' ''0123456789'' ''0123456789'' ''lim'' ''0123456789'' None),
          (False, Chunk ''abcdefghij'' ''abcdefghij'' ''abcdefghij'' ''p'' ''abcdefghij'' None),
          (False, Chunk ''ABCDEFGHIJ'' ''ABCDEFGHIJ'' ''ABCDEFGHIJ'' ''p'' ''ABCDEFGHIJ'' None)] \<and>
   min_text_length (demo_cfg 8 10) \<le> int (length ''0123456789'') \<and>
   traverse (demo_env tag) (demo_cfg 8 10) [] doc_lim (None, []) =
     Inr (None,
       [Chunk ''abcdefghij'' ''0123456789abcdefghij'' ''abcdefghij'' ''p'' ''abcdefghij'' None,
        Chunk ''ABCDEFGHIJ'' ''ABCDEFGHIJ'' ''ABCDEFGHIJ'' ''p'' ''ABCDEFGHIJ'' None]) \<and>
   get_chunks (demo_env tag) (demo_cfg 8 10) [] doc_lim =
     Inr [Chunk ''abcdefghij'' ''0123456789abcdefghij'' ''abcdefghij'' ''p'' ''abcdefghij'' None,
          Chunk ''ABCDEFGHIJ'' ''ABCDEFGHIJ'' ''ABCDEFGHIJ'' ''p'' ''ABCDEFGHIJ'' None] \<and>
   (\<exists>gs. concat gs =
       [(True, Chunk ''0123456789'' ''0123456789'' ''0123456789'' ''lim'' ''0123456789'' None),
        (False, Chunk ''abcdefghij'' ''abcdefghij'' ''abcdefghij'' ''p'' ''abcdefghij'' None),
        (False, Chunk ''ABCDEFGHIJ'' ''ABCDEFGHIJ'' ''ABCDEFGHIJ'' ''p'' ''ABCDEFGHIJ'' None)] \<and>
      [] \<notin> set gs \<and> [''0123456789abcdefghij'', ''ABCDEFGHIJ''] = map run_text gs \<and>
      butlast gs \<noteq> [] \<and> (\<forall>g\<in>set gs. \<not> fst (last g))) \<and>
   get_chunks (demo_env tag) (demo_cfg 8 10) [] doc_lim_last =
     Inr [Chunk ''abcdefghij'' ''abcdefghij'' ''abcdefghij'' ''p'' ''abcdefghij'' None,
          Chunk ''0123456789'' ''0123456789'' ''0123456789'' ''lim'' ''0123456789'' None] \<and>
   traverse (demo_env tag) (demo_cfg 8 10) [] doc_lim_last (None, []) =
     Inr (Some (Chunk ''0123456789'' ''0123456789'' ''0123456789'' ''lim'' ''0123456789'' None),
          [Chunk ''abcdefghij'' ''abcdefghij'' ''abcdefghij'' ''p'' ''abcdefghij'' None])"
proof -
  let ?l = "Chunk ''0123456789'' ''0123456789'' ''0123456789'' ''lim'' ''0123456789'' None"
  let ?p1 = "Chunk ''abcdefghij'' ''abcdefghij'' ''abcdefghij'' ''p'' ''abcdefghij'' None"
  let ?p2 = "Chunk ''ABCDEFGHIJ'' ''ABCDEFGHIJ'' ''ABCDEFGHIJ'' ''p'' ''ABCDEFGHIJ'' None"
  let ?m = "Chunk ''abcdefghij'' ''0123456789abcdefghij'' ''abcdefghij'' ''p'' ''abcdefghij'' None"
  have a: "items (demo_env tag) (demo_cfg 8 10) [] doc_lim = Inr [(True, ?l), (False, ?p1), (False, ?p2)]"
    by (simp add: items_defs)
  have b: "min_text_length (demo_cfg 8 10) \<le> int (length ''0123456789'')"
    by (simp add: demo_cfg_def)
  have c: "traverse (demo_env tag) (demo_cfg 8 10) [] doc_lim (None, []) = Inr (None, [?m, ?p2])"
    by (simp add: items_defs)
  have d: "get_chunks (demo_env tag) (demo_cfg 8 10) [] doc_lim = Inr [?m, ?p2]"
    by (simp add: items_defs)
  from lim_chunk_merged_forward [OF d] obtain ps gs where h:
    "items (demo_env tag) (demo_cfg 8 10) [] doc_lim = Inr ps" "concat gs = ps" "[] \<notin> set gs"
    "map chunk_text [?m, ?p2] = map run_text gs"
    "\<forall>fin. traverse (demo_env tag) (demo_cfg 8 10) [] doc_lim (None, []) = Inr (None, fin) \<longrightarrow>
       (\<forall>g\<in>set gs. \<not> fst (last g))"
    by (elim exE conjE)
  from h(1) a have ps: "ps = [(True, ?l), (False, ?p1), (False, ?p2)]" by simp
  from h(5) c have 1: "\<forall>g\<in>set gs. \<not> fst (last g)" by blast
  from h(4) have 2: "[''0123456789abcdefghij'', ''ABCDEFGHIJ''] = map run_text gs" by simp
  then have "length gs = 2" by (metis length_map length_Cons list.size(3) numeral_2_eq_2)
  then have 3: "butlast gs \<noteq> []" by (cases gs) auto
  have "concat gs = [(True, ?l), (False, ?p1), (False, ?p2)] \<and> [] \<notin> set gs \<and>
      [''0123456789abcdefghij'', ''ABCDEFGHIJ''] = map run_text gs \<and>
      butlast gs \<noteq> [] \<and> (\<forall>g\<in>set gs. \<not> fst (last g))"
    using h(2,3) ps 1 2 3 by (intro conjI) simp_all
  then have e: "\<exists>gs. concat gs = [(True, ?l), (False, ?p1), (False, ?p2)] \<and> [] \<notin> set gs \<and>
      [''0123456789abcdefghij'', ''ABCDEFGHIJ''] = map run_text gs \<and>
      butlast gs \<noteq> [] \<and> (\<forall>g\<in>set gs. \<not> fst (last g))"
    by (intro exI)
  have f: "get_chunks (demo_env tag) (demo_cfg 8 10) [] doc_lim_last = Inr [?p1, ?l]"
    by (simp add: items_defs)
  have g: "traverse (demo_env tag) (demo_cfg 8 10) [] doc_lim_last (None, []) = Inr (Some ?l, [?p1])"
    by (simp add: items_defs)
  from a b c d e f g show ?thesis by (intro conjI)
qed

subsection \<open>C6: the windows of a leaf\<close>

text \<open>
  Against C6 as stated: with \<open>max_text_length = -1\<close> the text \<open>Hello\<close> is cut into no
  window at all, and with \<open>max_text_length = 0\<close> an empty text raises \<open>ValueError\<close>
  instead of yielding zero chunks.
\<close>

theorem no_windows_for_nonpositive_max:
  "build_chunks (demo_env tag) (demo_cfg 8 (- 1)) [] (para ''Hello'') = Inr [] \<and>
   node_text_of (demo_env tag) (demo_cfg 8 (- 1)) (para ''Hello'') = ''Hello'' \<and>
   node_text_of (demo_env (\<lambda>_. [])) (demo_cfg 8 0) (para ''Hello'') = [] \<and>
   build_chunks (demo_env (\<lambda>_. [])) (demo_cfg 8 0) [] (para ''Hello'') = Inl ValueError"
  by (simp add: model_defs)

text \<open>
  C6, amended: when \<open>max_text_length\<close> is positive, \<open>_build_chunks\<close> returns normally and
  the texts of its chunks are consecutive windows of the rendered text: joined in order
  they give the rendered text, every window but the last has exactly \<open>max_text_length\<close>
  characters, every window is non-empty and at most \<open>max_text_length\<close> long, an empty
  text gives no chunk, and a text of 250 characters with \<open>max_text_length = 100\<close> gives
  three chunks of 100, 100 and 50 characters.
\<close>

theorem build_chunks_windows:
  assumes "0 < max_text_length cfg"
  shows "\<exists>subs. build_chunks E cfg ancs n = Inr subs \<and>
           concat (map chunk_text subs) = node_text_of E cfg n \<and>
           (\<forall>c\<in>set (butlast subs). int (length (chunk_text c)) = max_text_length cfg) \<and>
           (\<forall>c\<in>set subs. 0 < length (chunk_text c) \<and>
              int (length (chunk_text c)) \<le> max_text_length cfg) \<and>
           (node_text_of E cfg n = [] \<longrightarrow> subs = []) \<and>
           (length (node_text_of E cfg n) = 250 \<and> max_text_length cfg = 100 \<longrightarrow>
              map (length \<circ> chunk_text) subs = [100, 100, 50])"
proof -
  let ?s = "node_text_of E cfg n" and ?m = "max_text_length cfg"
  from assms obtain ws where ws: "node_text_splits ?s ?m = Inr ws"
    by (auto simp: node_text_splits_def)
  let ?subs = "map (\<lambda>t. Chunk (clean_tag E n) t (tostring E n) (structure_of n)
                          (xpath E ancs n) None) ws"
  have b: "build_chunks E cfg ancs n = Inr ?subs" by (simp add: build_chunks_def ws)
  have t: "map chunk_text ?subs = ws" by (simp add: comp_def)
  have 1: "concat (map chunk_text ?subs) = ?s"
    using splits_concat [OF assms ws] by (simp only: t)
  have 2: "\<forall>c\<in>set (butlast ?subs). int (length (chunk_text c)) = ?m"
    using splits_butlast [OF ws] by (auto simp: map_butlast [symmetric])
  have 3: "\<forall>c\<in>set ?subs. 0 < length (chunk_text c) \<and> int (length (chunk_text c)) \<le> ?m"
    using splits_length [OF ws] by auto
  have "py_range 0 0 ?m = []" by (subst py_range.simps) simp
  with ws have 4: "?s = [] \<longrightarrow> ?subs = []"
    by (auto simp: node_text_splits_def split: if_splits)
  have 5: "length ?s = 250 \<and> ?m = 100 \<longrightarrow> map (length \<circ> chunk_text) ?subs = [100, 100, 50]"
  proof
    assume h: "length ?s = 250 \<and> ?m = 100"
    with ws splits_250(1) [of ?s] have "map length ws = [100, 100, 50]" by simp
    then show "map (length \<circ> chunk_text) ?subs = [100, 100, 50]" by (simp add: comp_def)
  qed
  from b 1 2 3 4 5 show ?thesis
    by (intro exI [of _ ?subs] conjI)
qed

theorem build_chunks_windows_witness:
  "0 < max_text_length (demo_cfg 8 4) \<and>
   map chunk_text (projr (build_chunks (demo_env tag) (demo_cfg 8 4) [] (para ''0123456789''))) =
     [''0123'', ''4567'', ''89''] \<and>
   (\<exists>subs. build_chunks (demo_env tag) (demo_cfg 8 4) [] (para ''0123456789'') = Inr subs \<and>
      concat (map chunk_text subs) = ''0123456789'')"
proof -
  have a: "0 < max_text_length (demo_cfg 8 4)" by (simp add: demo_cfg_def)
  have b: "map chunk_text (projr (build_chunks (demo_env tag) (demo_cfg 8 4) [] (para ''0123456789''))) =
     [''0123'', ''4567'', ''89'']"
    by (simp add: model_defs)
  have n: "node_text_of (demo_env tag) (demo_cfg 8 4) (para ''0123456789'') = ''0123456789''"
    by (simp add: model_defs)
  from build_chunks_windows [OF a, of "demo_env tag" "[]" "para ''0123456789''"]
  obtain subs where "build_chunks (demo_env tag) (demo_cfg 8 4) [] (para ''0123456789'') = Inr subs"
    "concat (map chunk_text subs) = node_text_of (demo_env tag) (demo_cfg 8 4) (para ''0123456789'')"
    by blast
  then have c: "\<exists>subs. build_chunks (demo_env tag) (demo_cfg 8 4) [] (para ''0123456789'') = Inr subs \<and>
      concat (map chunk_text subs) = ''0123456789''"
    unfolding n by (intro exI [of _ subs] conjI)
  from a b c show ?thesis by (intro conjI)
qed

subsection \<open>C7: the parent of a chunk\<close>

text \<open>
  C7: in hierarchy mode (\<open>xml_mode\<close> with \<open>parent_hierarchy_levels > 0\<close>), when a leaf is
  processed without an exception, every provisional chunk of the leaf gets the same parent,
  \<open>context_chunk\<close>: the first slice of the rendering of the ancestor
  \<open>parent_hierarchy_levels\<close> levels up, clipped at the root; and so does every chunk that the
  processing of the leaf appends or leaves pending, whatever was pending before. With
  \<open>parent_hierarchy_levels = 0\<close> every chunk that \<open>get_chunks\<close> returns has no parent.
\<close>

theorem parent_context:
  "(xml_mode cfg \<and> 0 < parent_hierarchy_levels cfg \<and> leaf_items E cfg ancs n = Inr ps \<longrightarrow>
      (\<forall>fc\<in>set ps. chunk_parent (snd fc) = Some (context_chunk E cfg ancs n))) \<and>
   (xml_mode cfg \<and> 0 < parent_hierarchy_levels cfg \<and> leaf_node cfg ancs n \<and>
    traverse E cfg ancs n (pre, fin) = Inr (pre', fin') \<longrightarrow>
      (\<exists>new. fin' = fin @ new \<and>
         (\<forall>c\<in>set new. chunk_parent c = Some (context_chunk E cfg ancs n)) \<and>
         (if build_chunks E cfg ancs n = Inr [] then pre' = pre
          else (\<forall>p. pre' = Some p \<longrightarrow> chunk_parent p = Some (context_chunk E cfg ancs n))))) \<and>
   (parent_hierarchy_levels cfg = 0 \<and> get_chunks E cfg ancs n = Inr cs \<longrightarrow>
      (\<forall>c\<in>set cs. chunk_parent c = None))"
proof (intro conjI impI)
  assume h: "xml_mode cfg \<and> 0 < parent_hierarchy_levels cfg \<and> leaf_items E cfg ancs n = Inr ps"
  show "\<forall>fc\<in>set ps. chunk_parent (snd fc) = Some (context_chunk E cfg ancs n)"
  proof
    fix fc assume "fc \<in> set ps"
    with h leaf_items_parent [of E cfg ancs n ps fc]
    show "chunk_parent (snd fc) = Some (context_chunk E cfg ancs n)" by simp
  qed
next
  assume h: "xml_mode cfg \<and> 0 < parent_hierarchy_levels cfg \<and> leaf_node cfg ancs n \<and>
    traverse E cfg ancs n (pre, fin) = Inr (pre', fin')"
  then have l: "leaf_node cfg ancs n"
    and t: "traverse E cfg ancs n (pre, fin) = Inr (pre', fin')" by blast+
  from t l have "emit_leaf E cfg ancs n (pre, fin) = Inr (pre', fin')"
    by (simp add: traverse_unfold)
  then obtain ps where ps: "leaf_items E cfg ancs n = Inr ps"
    and f: "foldl (merge_one cfg) (pre, fin) ps = (pre', fin')"
    by (auto simp: emit_leaf_items split: sum.splits)
  have par: "\<forall>fc\<in>set ps. chunk_parent (snd fc) = Some (context_chunk E cfg ancs n)"
  proof
    fix fc assume "fc \<in> set ps"
    with h leaf_items_parent [OF ps, of fc]
    show "chunk_parent (snd fc) = Some (context_chunk E cfg ancs n)" by simp
  qed
  have e: "ps = [] \<longleftrightarrow> build_chunks E cfg ancs n = Inr []"
    using ps by (auto simp: leaf_items_def split: sum.splits)
  from foldl_merge_parent [OF f par] obtain new where n: "fin' = fin @ new"
    "\<forall>c\<in>set new. chunk_parent c = Some (context_chunk E cfg ancs n)"
    "if ps = [] then pre' = pre
     else (\<forall>p. pre' = Some p \<longrightarrow> chunk_parent p = Some (context_chunk E cfg ancs n))"
    by (elim exE conjE)
  from n(3) e have "if build_chunks E cfg ancs n = Inr [] then pre' = pre
     else (\<forall>p. pre' = Some p \<longrightarrow> chunk_parent p = Some (context_chunk E cfg ancs n))"
    by simp
  with n(1,2) show "\<exists>new. fin' = fin @ new \<and>
         (\<forall>c\<in>set new. chunk_parent c = Some (context_chunk E cfg ancs n)) \<and>
         (if build_chunks E cfg ancs n = Inr [] then pre' = pre
          else (\<forall>p. pre' = Some p \<longrightarrow> chunk_parent p = Some (context_chunk E cfg ancs n)))"
    by (intro exI [of _ new] conjI)
next
  assume h: "parent_hierarchy_levels cfg = 0 \<and> get_chunks E cfg ancs n = Inr cs"
  then obtain ps where ps: "items E cfg ancs n = Inr ps"
    and cs: "cs = flush (foldl (merge_one cfg) (None, []) ps)"
    by (auto simp: get_chunks_items split: sum.splits)
  obtain pre' fin' where f: "foldl (merge_one cfg) (None, []) ps = (pre', fin')"
    by (cases "foldl (merge_one cfg) (None, []) ps")
  have par: "\<forall>fc\<in>set ps. chunk_parent (snd fc) = None"
  proof
    fix fc assume "fc \<in> set ps"
    with h items_parent_None(1) [OF ps, of fc] show "chunk_parent (snd fc) = None" by simp
  qed
  from foldl_merge_parent [OF f par] obtain new where n: "fin' = [] @ new"
    "\<forall>c\<in>set new. chunk_parent c = None"
    "if ps = [] then pre' = None else (\<forall>p. pre' = Some p \<longrightarrow> chunk_parent p = None)"
    by (elim exE conjE)
  show "\<forall>c\<in>set cs. chunk_parent c = None"
  proof
    fix c assume "c \<in> set cs"
    with cs f have "c \<in> set fin' \<or> pre' = Some c"
      by (auto simp: flush_def split: option.splits)
    with n show "chunk_parent c = None" by (auto split: if_splits)
  qed
qed

theorem parent_context_witness:
  "xml_mode hier_cfg \<and> 0 < parent_hierarchy_levels hier_cfg \<and>
   leaf_node hier_cfg [doc2] (para ''Hello'') \<and>
   traverse (demo_env tag) hier_cfg [doc2] (para ''Hello'') (None, []) =
     Inr (Some (Chunk ''Hello'' ''Hello'' ''Hello'' ''p'' ''Hello''
                 (Some (Chunk ''doc'' ''doc'' ''doc'' [] ''doc'' None))), []) \<and>
   context_chunk (demo_env tag) hier_cfg [doc2] (para ''Hello'') =
     Chunk ''doc'' ''doc'' ''doc'' [] ''doc'' None \<and>
   parent_hierarchy_levels (demo_cfg 8 10) = 0 \<and>
   get_chunks (demo_env tag) (demo_cfg 8 10) [] doc2 =
     Inr [Chunk ''0123456789'' ''Hello0123456789'' ''0123456789'' ''p'' ''0123456789'' None]"
proof -
  have a: "xml_mode hier_cfg" and b: "0 < parent_hierarchy_levels hier_cfg"
    by (simp_all add: hier_cfg_def demo_cfg_def)
  have c: "leaf_node hier_cfg [doc2] (para ''Hello'')"
    by (simp add: model_defs)
  have d: "traverse (demo_env tag) hier_cfg [doc2] (para ''Hello'') (None, []) =
     Inr (Some (Chunk ''Hello'' ''Hello'' ''Hello'' ''p'' ''Hello''
                 (Some (Chunk ''doc'' ''doc'' ''doc'' [] ''doc'' None))), [])"
    by (simp add: model_defs)
  have nb: "build_chunks (demo_env tag) hier_cfg [doc2] (para ''Hello'') \<noteq> Inr []"
    by (simp add: model_defs)
  from parent_context [of hier_cfg "demo_env tag" "[doc2]" "para ''Hello''" _ None "[]"
      "Some (Chunk ''Hello'' ''Hello'' ''Hello'' ''p'' ''Hello''
                 (Some (Chunk ''doc'' ''doc'' ''doc'' [] ''doc'' None)))" "[]"] a b c d nb
  have e: "context_chunk (demo_env tag) hier_cfg [doc2] (para ''Hello'') =
     Chunk ''doc'' ''doc'' ''doc'' [] ''doc'' None"
    by simp
  have f: "parent_hierarchy_levels (demo_cfg 8 10) = 0" by (simp add: demo_cfg_def)
  have g: "get_chunks (demo_env tag) (demo_cfg 8 10) [] doc2 =
     Inr [Chunk ''0123456789'' ''Hello0123456789'' ''0123456789'' ''p'' ''0123456789'' None]"
    by (simp add: model_defs)
  from a b c d e f g show ?thesis by (intro conjI)
qed

subsection \<open>C8: table nodes\<close>

text \<open>
  Against C8 as stated. With \<open>sub_chunk_tables\<close> on, a table without markers below a marked
  section is still a leaf (an orphan of the section), so the traversal does not descend
  into its rows and cells: the table comes out as one chunk of its whole rendering, after
  the chunk of the paragraph. And with \<open>sub_chunk_tables\<close> off in xml mode, the chunk of a
  table holds the full-structure rendering, not the flattened one.
\<close>

theorem table_kept_whole_with_sub_chunking:
  "sub_chunk_tables ((demo_cfg 8 100)\<lparr>sub_chunk_tables := True\<rparr>) \<and>
   tag sample_table = TABLE_NAME \<and> children sample_table = [Node ''tr'' [] [Node ''td'' [] []]] \<and>
   leaf_node ((demo_cfg 8 100)\<lparr>sub_chunk_tables := True\<rparr>) [sample_section] sample_table \<and>
   map chunk_text (projr (get_chunks (demo_env tag) ((demo_cfg 8 100)\<lparr>sub_chunk_tables := True\<rparr>)
      [] sample_section)) = [''Paragraph'', ''{http://www.w3.org/1999/xhtml}table''] \<and>
   xhtml_table_to_text flat_env sample_table True = ''flattened cells'' \<and>
   map chunk_text (projr (get_chunks flat_env ((demo_cfg 8 100)\<lparr>xml_mode := True\<rparr>)
      [] sample_table)) = [''{http://www.w3.org/1999/xhtml}table'']"
  by (simp add: items_defs)

text \<open>
  C8, amended: at a table-typed node with \<open>sub_chunk_tables\<close> off the traversal never looks
  at the children: the node is a leaf, and what goes through the merger are exactly the
  chunks cut from the node's single rendering (\<open>simplified_xml\<close> in xml mode,
  \<open>xhtml_table_to_text\<close> otherwise), however many nodes the table contains. With
  \<open>sub_chunk_tables\<close> on, the table is classified like any other node: the traversal goes
  through its children in document order exactly when it has a marked descendant, or has
  neither a marker nor a marked ancestor; otherwise the table is still emitted whole.
\<close>

theorem table_node_traversal:
  assumes "tag n = TABLE_NAME"
  shows "(\<not> sub_chunk_tables cfg \<longrightarrow>
            leaves cfg ancs n = [n] \<and>
            traverse E cfg ancs n st =
              (case leaf_items E cfg ancs n of
                 Inl e \<Rightarrow> Inl e
               | Inr ps \<Rightarrow> Inr (foldl (merge_one cfg) st ps)) \<and>
            (\<forall>ps. leaf_items E cfg ancs n = Inr ps \<longrightarrow>
               node_text_splits
                 (if xml_mode cfg then simplified_xml E n (whitespace_normalize_text cfg)
                  else xhtml_table_to_text E n (whitespace_normalize_text cfg))
                 (max_text_length cfg) = Inr (map (chunk_text \<circ> snd) ps))) \<and>
         (sub_chunk_tables cfg \<longrightarrow>
            traverse E cfg ancs n st =
              (if has_structural_children n \<or>
                  (\<not> is_structural n \<and> \<not> is_descendant_of_structural ancs)
               then foldl (\<lambda>r c. case r of Inl e \<Rightarrow> Inl e
                                  | Inr s \<Rightarrow> traverse E cfg (n # ancs) c s) (Inr st) (children n)
               else (case leaf_items E cfg ancs n of
                       Inl e \<Rightarrow> Inl e
                     | Inr ps \<Rightarrow> Inr (foldl (merge_one cfg) st ps))))"
proof (intro conjI impI allI)
  assume s: "\<not> sub_chunk_tables cfg"
  with assms have l: "leaf_node cfg ancs n" by (simp add: leaf_node_def)
  then show "leaves cfg ancs n = [n]" by (cases n) simp
  from l show "traverse E cfg ancs n st =
      (case leaf_items E cfg ancs n of
         Inl e \<Rightarrow> Inl e
       | Inr ps \<Rightarrow> Inr (foldl (merge_one cfg) st ps))"
    by (simp add: traverse_unfold emit_leaf_items)
next
  fix ps assume "leaf_items E cfg ancs n = Inr ps"
  with assms show "node_text_splits
       (if xml_mode cfg then simplified_xml E n (whitespace_normalize_text cfg)
        else xhtml_table_to_text E n (whitespace_normalize_text cfg))
       (max_text_length cfg) = Inr (map (chunk_text \<circ> snd) ps)"
    by (auto simp: leaf_items_def build_chunks_def node_text_of_def comp_def split: sum.splits)
next
  assume "sub_chunk_tables cfg"
  then have "leaf_node cfg ancs n \<longleftrightarrow>
      \<not> (has_structural_children n \<or> (\<not> is_structural n \<and> \<not> is_descendant_of_structural ancs))"
    by (auto simp: leaf_node_def)
  then show "traverse E cfg ancs n st =
      (if has_structural_children n \<or> (\<not> is_structural n \<and> \<not> is_descendant_of_structural ancs)
       then foldl (\<lambda>r c. case r of Inl e \<Rightarrow> Inl e
                          | Inr s \<Rightarrow> traverse E cfg (n # ancs) c s) (Inr st) (children n)
       else (case leaf_items E cfg ancs n of
               Inl e \<Rightarrow> Inl e
             | Inr ps \<Rightarrow> Inr (foldl (merge_one cfg) st ps)))"
    by (simp add: traverse_unfold traverse_children_foldl emit_leaf_items)
qed

theorem table_node_traversal_witness:
  "tag marked_table = TABLE_NAME \<and> \<not> sub_chunk_tables (demo_cfg 8 100) \<and>
   leaves (demo_cfg 8 100) [] marked_table = [marked_table] \<and>
   traverse (demo_env tag) (demo_cfg 8 100) [] marked_table (None, []) =
     Inr (None, [Chunk ''{http://www.w3.org/1999/xhtml}table''
                   ''{http://www.w3.org/1999/xhtml}table''
                   ''{http://www.w3.org/1999/xhtml}table'' [] 
                   ''{http://www.w3.org/1999/xhtml}table'' None]) \<and>
   sub_chunk_tables ((demo_cfg 8 100)\<lparr>sub_chunk_tables := True\<rparr>) \<and>
   has_structural_children marked_table \<and>
   traverse (demo_env tag) ((demo_cfg 8 100)\<lparr>sub_chunk_tables := True\<rparr>) [] marked_table (None, []) =
     Inr (None, [Chunk ''0123456789'' ''0123456789'' ''0123456789'' ''p'' ''0123456789'' None,
                 Chunk ''abcdefghij'' ''abcdefghij'' ''abcdefghij'' ''p'' ''abcdefghij'' None])"
proof -
  let ?E = "demo_env tag" and ?cfg = "demo_cfg 8 100"
  let ?cfgT = "(demo_cfg 8 100)\<lparr>sub_chunk_tables := True\<rparr>"
  let ?t = "Chunk ''{http://www.w3.org/1999/xhtml}table'' ''{http://www.w3.org/1999/xhtml}table''
              ''{http://www.w3.org/1999/xhtml}table'' [] ''{http://www.w3.org/1999/xhtml}table'' None"
  have a: "tag marked_table = TABLE_NAME" by (simp add: marked_table_def)
  have b: "\<not> sub_chunk_tables ?cfg" by (simp add: demo_cfg_def)
  from b table_node_traversal [OF a, of ?cfg "[]" ?E "(None, [])"]
  have c: "leaves ?cfg [] marked_table = [marked_table]"
    and d0: "traverse ?E ?cfg [] marked_table (None, []) =
      (case leaf_items ?E ?cfg [] marked_table of
         Inl e \<Rightarrow> Inl e | Inr ps \<Rightarrow> Inr (foldl (merge_one ?cfg) (None, []) ps))"
    by blast+
  have li: "leaf_items ?E ?cfg [] marked_table = Inr [(False, ?t)]"
    by (simp add: items_defs)
  from d0 have d: "traverse ?E ?cfg [] marked_table (None, []) = Inr (None, [?t])"
    unfolding li by (simp add: merge_one_def demo_cfg_def)
  have e: "sub_chunk_tables ?cfgT" by simp
  have f: "has_structural_children marked_table" by (simp add: items_defs)
  have ch: "children marked_table = [Node ''tr'' [] [para ''0123456789'', para ''abcdefghij'']]"
    by (simp add: marked_table_def)
  have tr: "traverse ?E ?cfgT [marked_table] (Node ''tr'' [] [para ''0123456789'', para ''abcdefghij''])
      (None, []) =
     Inr (None, [Chunk ''0123456789'' ''0123456789'' ''0123456789'' ''p'' ''0123456789'' None,
                 Chunk ''abcdefghij'' ''abcdefghij'' ''abcdefghij'' ''p'' ''abcdefghij'' None])"
    by (simp add: items_defs)
  from e f table_node_traversal [OF a, of ?cfgT "[]" ?E "(None, [])"]
  have "traverse ?E ?cfgT [] marked_table (None, []) =
      foldl (\<lambda>r c. case r of Inl e \<Rightarrow> Inl e | Inr s \<Rightarrow> traverse ?E ?cfgT [marked_table] c s)
        (Inr (None, [])) (children marked_table)"
    by simp
  then have g: "traverse ?E ?cfgT [] marked_table (None, []) =
     Inr (None, [Chunk ''0123456789'' ''0123456789'' ''0123456789'' ''p'' ''0123456789'' None,
                 Chunk ''abcdefghij'' ''abcdefghij'' ''abcdefghij'' ''p'' ''abcdefghij'' None])"
    by (simp only: ch foldl.simps sum.case tr)
  from a b c d e f g show ?thesis by (intro conjI)
qed

subsection \<open>C9: trees without markers\<close>

text \<open>
  Against C9 as stated: with \<open>sub_chunk_tables\<close> off (the default) a table-typed node is a
  leaf whether or not anything is marked, so a tree without any marker that contains a
  table has a leaf and yields a chunk.
\<close>

theorem unmarked_table_is_emitted:
  "unmarked (Node ''doc'' [] [sample_table]) \<and>
   leaves (demo_cfg 8 100) [] (Node ''doc'' [] [sample_table]) = [sample_table] \<and>
   map chunk_text (projr (get_chunks (demo_env tag) (demo_cfg 8 100) []
      (Node ''doc'' [] [sample_table]))) = [''{http://www.w3.org/1999/xhtml}table'']"
  by (simp add: model_defs)

text \<open>
  C9, amended: for a tree in which no node carries a structure marker (the ancestors of the
  given node included), provided \<open>sub_chunk_tables\<close> is on or the tree has no table-typed
  node, no node is classified a leaf and \<open>get_chunks\<close> returns the empty list. The proviso
  cannot be dropped: with \<open>sub_chunk_tables\<close> off, such a tree with a table-typed node has
  a leaf.
\<close>

theorem unmarked_tree_no_chunks:
  assumes "unmarked n" and "\<not> is_descendant_of_structural ancs"
  shows "(sub_chunk_tables cfg \<or> \<not> has_table n \<longrightarrow>
            (\<forall>am\<in>set (positions ancs n). \<not> leaf_node cfg (fst am) (snd am)) \<and>
            leaves cfg ancs n = [] \<and> get_chunks E cfg ancs n = Inr []) \<and>
         (\<not> sub_chunk_tables cfg \<and> has_table n \<longrightarrow> leaves cfg ancs n \<noteq> [])"
proof (intro conjI impI ballI)
  assume h: "sub_chunk_tables cfg \<or> \<not> has_table n"
  from items_unmarked(1) [OF assms h, of E]
  show "leaves cfg ancs n = []" and "get_chunks E cfg ancs n = Inr []"
    by (simp_all add: get_chunks_items flush_def)
  fix am assume "am \<in> set (positions ancs n)"
  from positions_unmarked [OF assms h this] show "\<not> leaf_node cfg (fst am) (snd am)" .
next
  assume "\<not> sub_chunk_tables cfg \<and> has_table n"
  with leaves_table(1) [OF assms] show "leaves cfg ancs n \<noteq> []" by blast
qed

theorem unmarked_tree_no_chunks_witness:
  "unmarked (Node ''doc'' [] [Node ''p'' [] [], Node ''q'' [] []]) \<and>
   \<not> has_table (Node ''doc'' [] [Node ''p'' [] [], Node ''q'' [] []]) \<and>
   \<not> leaf_node (demo_cfg 8 100) [Node ''doc'' [] [Node ''p'' [] [], Node ''q'' [] []]]
       (Node ''q'' [] []) \<and>
   leaves (demo_cfg 8 100) [] (Node ''doc'' [] [Node ''p'' [] [], Node ''q'' [] []]) = [] \<and>
   get_chunks (demo_env tag) (demo_cfg 8 100) [] (Node ''doc'' [] [Node ''p'' [] [], Node ''q'' [] []])
     = Inr [] \<and>
   unmarked (Node ''doc'' [] [sample_table]) \<and> has_table (Node ''doc'' [] [sample_table]) \<and>
   sub_chunk_tables ((demo_cfg 8 100)\<lparr>sub_chunk_tables := True\<rparr>) \<and>
   get_chunks (demo_env tag) ((demo_cfg 8 100)\<lparr>sub_chunk_tables := True\<rparr>) []
     (Node ''doc'' [] [sample_table]) = Inr []"
proof -
  let ?d = "Node ''doc'' [] [Node ''p'' [] [], Node ''q'' [] []]"
  let ?cfgT = "(demo_cfg 8 100)\<lparr>sub_chunk_tables := True\<rparr>"
  have a: "unmarked ?d" by (simp add: is_structural_def)
  have b: "\<not> is_descendant_of_structural []" by simp
  have c: "\<not> has_table ?d" by (simp add: TABLE_NAME_def)
  have p: "([?d], Node ''q'' [] []) \<in> set (positions [] ?d)" by simp
  from unmarked_tree_no_chunks [OF a b, of "demo_cfg 8 100" "demo_env tag"] c
  have all: "\<forall>am\<in>set (positions [] ?d). \<not> leaf_node (demo_cfg 8 100) (fst am) (snd am)"
    and d: "leaves (demo_cfg 8 100) [] ?d = []"
    and e: "get_chunks (demo_env tag) (demo_cfg 8 100) [] ?d = Inr []"
    by blast+
  from all p have q: "\<not> leaf_node (demo_cfg 8 100) [?d] (Node ''q'' [] [])" by fastforce
  have f: "unmarked (Node ''doc'' [] [sample_table])"
    by (simp add: sample_table_def is_structural_def)
  have g: "has_table (Node ''doc'' [] [sample_table])" by (simp add: sample_table_def)
  have h: "sub_chunk_tables ?cfgT" by simp
  from unmarked_tree_no_chunks [OF f b, of ?cfgT "demo_env tag"] h
  have i: "get_chunks (demo_env tag) ?cfgT [] (Node ''doc'' [] [sample_table]) = Inr []"
    by blast
  from a c q d e f g h i show ?thesis by (intro conjI)
qed

subsection \<open>C10: exceptions\<close>

text \<open>
  C10 fails on the code. In hierarchy mode the context chunk is element \<open>[0]\<close> of the
  chunks built from the ancestor, and that list is empty when the ancestor renders to the
  empty text: \<open>get_chunks\<close> raises \<open>IndexError\<close> at a leaf whose own text is not empty. And
  with \<open>max_text_length = 0\<close> the step of \<open>range\<close> is zero: \<open>get_chunks\<close> raises
  \<open>ValueError\<close> at the first leaf, in either mode.
\<close>

theorem get_chunks_raises:
  "node_text_of (demo_env (\<lambda>n. if tag n = ''doc'' then [] else tag n)) hier_cfg doc2 = [] \<and>
   get_chunks (demo_env (\<lambda>n. if tag n = ''doc'' then [] else tag n)) hier_cfg [] doc2 =
     Inl IndexError \<and>
   get_chunks (demo_env tag) (demo_cfg 8 0) [] doc2 = Inl ValueError"
  by (simp add: model_defs)

end
